theory Spec2Isabelle
  imports Main
begin

section \<open>Python strings\<close>

text \<open>
  A Python \<open>str\<close> is a sequence of Unicode code points, so a string is modelled as the
  list of its code points. The tag glyphs of the stamp protocol lie outside ASCII and each
  of them is one code point, which is what \<open>part[1:]\<close> in the decoder relies on.
\<close>

type_synonym ustr = "nat list"

definition lit :: "string \<Rightarrow> ustr" where
  "lit s = map of_char s"

abbreviation SEP :: nat where "SEP \<equiv> 124"          \<comment> \<open>the pipe\<close>
abbreviation SPACE :: nat where "SPACE \<equiv> 32"
abbreviation DASH :: nat where "DASH \<equiv> 45"
abbreviation SLASH :: nat where "SLASH \<equiv> 47"
abbreviation UNDERSCORE :: nat where "UNDERSCORE \<equiv> 95"

abbreviation TAG_BRANCH :: nat where "TAG_BRANCH \<equiv> 0x1F33F"
abbreviation TAG_DEPTH :: nat where "TAG_DEPTH \<equiv> 0x1F4CD"
abbreviation TAG_PARENT :: nat where "TAG_PARENT \<equiv> 0x2B06"
abbreviation TAG_STATE :: nat where "TAG_STATE \<equiv> 0x26A1"
abbreviation TAG_GATES :: nat where "TAG_GATES \<equiv> 0x1F512"
abbreviation TAG_PIN :: nat where "TAG_PIN \<equiv> 0x1F4CC"
abbreviation TAG_LOOK :: nat where "TAG_LOOK \<equiv> 0x1F441"
abbreviation TAG_CHAIN :: nat where "TAG_CHAIN \<equiv> 0x1F517"
abbreviation TAG_TIME :: nat where "TAG_TIME \<equiv> 0x23F1"

text \<open>\<open>s.startswith(pre)\<close> and \<open>s.endswith(suf)\<close>.\<close>

definition startswith :: "ustr \<Rightarrow> ustr \<Rightarrow> bool" where
  "startswith s pre = (take (length pre) s = pre)"

definition endswith :: "ustr \<Rightarrow> ustr \<Rightarrow> bool" where
  "endswith s suf = (length suf \<le> length s \<and> drop (length s - length suf) s = suf)"

text \<open>\<open>s.split(c)\<close> for a separator of one character: never an empty list.\<close>

fun split :: "nat \<Rightarrow> ustr \<Rightarrow> ustr list" where
  "split c [] = [[]]"
| "split c (x # xs) =
     (if x = c then [] # split c xs
      else (case split c xs of [] \<Rightarrow> [[x]] | w # ws \<Rightarrow> (x # w) # ws))"

text \<open>\<open>sep.join(parts)\<close>.\<close>

fun join :: "ustr \<Rightarrow> ustr list \<Rightarrow> ustr" where
  "join sep [] = []"
| "join sep [p] = p"
| "join sep (p # q # ps) = p @ sep @ join sep (q # ps)"

text \<open>\<open>s.replace(a, b)\<close> for single characters \<open>a\<close> and \<open>b\<close>.\<close>

definition replace_char :: "nat \<Rightarrow> nat \<Rightarrow> ustr \<Rightarrow> ustr" where
  "replace_char a b s = map (\<lambda>c. if c = a then b else c) s"

text \<open>\<open>s.rfind(sub)\<close>: the start of the rightmost occurrence, \<open>None\<close> for Python's -1.\<close>

fun rfind :: "ustr \<Rightarrow> ustr \<Rightarrow> nat option" where
  "rfind sub [] = (if sub = [] then Some 0 else None)"
| "rfind sub (x # xs) =
     (case rfind sub xs of
        Some i \<Rightarrow> Some (Suc i)
      | None \<Rightarrow> if startswith (x # xs) sub then Some 0 else None)"

text \<open>
  \<open>str(n)\<close> of a Python integer, and the zero-padded \<open>%02d\<close> of \<open>strftime\<close>.
\<close>

fun str_nat :: "nat \<Rightarrow> ustr" where
  "str_nat n = (if n < 10 then [48 + n] else str_nat (n div 10) @ [48 + n mod 10])"

declare str_nat.simps [simp del]

definition str_int :: "int \<Rightarrow> ustr" where
  "str_int i = (if i < 0 then DASH # str_nat (nat (- i)) else str_nat (nat i))"

definition pad2 :: "nat \<Rightarrow> ustr" where
  "pad2 n = (if n < 10 then [48, 48 + n] else str_nat n)"

record datetime =
  dt_month :: nat
  dt_day :: nat
  dt_hour :: nat
  dt_minute :: nat

text \<open>\<open>now.strftime("%m%dT%H%M")\<close>.\<close>

definition strftime_mdTHM :: "datetime \<Rightarrow> ustr" where
  "strftime_mdTHM now =
     pad2 (dt_month now) @ pad2 (dt_day now) @ lit ''T'' @ pad2 (dt_hour now) @ pad2 (dt_minute now)"

text \<open>
  \<open>int(s)\<close> on a string: surrounding whitespace is stripped, one sign is allowed, and
  the digits may be grouped by single underscores; anything else raises \<open>ValueError\<close>
  (\<open>None\<close> here). The whitespace that \<open>int\<close> strips is \<open>str.isspace\<close> without the
  four separators U+001C to U+001F. A digit is a decimal digit of any script: the
  decimal digits of Unicode come in blocks of ten consecutive code points, 0 to 9, and
  \<open>DECIMAL_ZEROS\<close> lists the zero of each block (Unicode 14.0, as Python 3.11 has it).
\<close>

definition is_space :: "nat \<Rightarrow> bool" where
  "is_space c = (c \<in> set [9, 10, 11, 12, 13, 32, 133, 160, 5760,
      8192, 8193, 8194, 8195, 8196, 8197, 8198, 8199, 8200, 8201, 8202,
      8232, 8233, 8239, 8287, 12288])"

definition strip :: "ustr \<Rightarrow> ustr" where
  "strip s = rev (dropWhile is_space (rev (dropWhile is_space s)))"

definition DECIMAL_ZEROS :: "nat list" where
  "DECIMAL_ZEROS = [
      0x30, 0x660, 0x6F0, 0x7C0, 0x966, 0x9E6, 0xA66, 0xAE6,
      0xB66, 0xBE6, 0xC66, 0xCE6, 0xD66, 0xDE6, 0xE50, 0xED0,
      0xF20, 0x1040, 0x1090, 0x17E0, 0x1810, 0x1946, 0x19D0, 0x1A80,
      0x1A90, 0x1B50, 0x1BB0, 0x1C40, 0x1C50, 0xA620, 0xA8D0, 0xA900,
      0xA9D0, 0xA9F0, 0xAA50, 0xABF0, 0xFF10, 0x104A0, 0x10D30, 0x11066,
      0x110F0, 0x11136, 0x111D0, 0x112F0, 0x11450, 0x114D0, 0x11650, 0x116C0,
      0x11730, 0x118E0, 0x11950, 0x11C50, 0x11D50, 0x11DA0, 0x16A60, 0x16AC0,
      0x16B50, 0x1D7CE, 0x1D7D8, 0x1D7E2, 0x1D7EC, 0x1D7F6, 0x1E140, 0x1E2F0,
      0x1E950, 0x1FBF0]"

definition decimal_value :: "nat \<Rightarrow> nat option" where
  "decimal_value c = map_option (\<lambda>z. c - z) (find (\<lambda>z. z \<le> c \<and> c < z + 10) DECIMAL_ZEROS)"

definition is_digit :: "nat \<Rightarrow> bool" where
  "is_digit c = (decimal_value c \<noteq> None)"

definition digits_value :: "ustr \<Rightarrow> nat" where
  "digits_value ds =
     foldl (\<lambda>acc d. 10 * acc + (case decimal_value d of Some v \<Rightarrow> v | None \<Rightarrow> 0)) 0 ds"

definition parse_digits :: "ustr \<Rightarrow> nat option" where
  "parse_digits s =
     (let groups = split UNDERSCORE s
      in if list_all (\<lambda>g. g \<noteq> [] \<and> list_all is_digit g) groups
         then Some (digits_value (concat groups)) else None)"

definition py_int :: "ustr \<Rightarrow> int option" where
  "py_int s =
     (case strip s of
        [] \<Rightarrow> None
      | c # r \<Rightarrow>
          if c = DASH then map_option (\<lambda>n. - int n) (parse_digits r)
          else if c = 43 then map_option int (parse_digits r)
          else map_option int (parse_digits (c # r)))"

section \<open>Gates (stamp.py)\<close>

text \<open>
  In stamp.py a gate's state is the glyph itself, a string of one character:
  open U+25CB, half U+25D0, yes U+25CF, no U+2715, blocked U+25C8, revisit U+21BA.
\<close>

record gate =
  letter :: ustr
  question :: ustr
  gstate :: ustr

abbreviation GLYPH_OPEN :: ustr where "GLYPH_OPEN \<equiv> [0x25CB]"
abbreviation GLYPH_HALF :: ustr where "GLYPH_HALF \<equiv> [0x25D0]"
abbreviation GLYPH_YES :: ustr where "GLYPH_YES \<equiv> [0x25CF]"
abbreviation GLYPH_NO :: ustr where "GLYPH_NO \<equiv> [0x2715]"
abbreviation GLYPH_BLOCKED :: ustr where "GLYPH_BLOCKED \<equiv> [0x25C8]"
abbreviation GLYPH_REVISIT :: ustr where "GLYPH_REVISIT \<equiv> [0x21BA]"

definition GATE_CYCLE :: "ustr list" where
  "GATE_CYCLE = [GLYPH_OPEN, GLYPH_HALF, GLYPH_YES, GLYPH_NO]"

text \<open>\<open>xs.index(x)\<close>: the first position of \<open>x\<close>; \<open>None\<close> where Python raises.\<close>

fun py_index :: "'a list \<Rightarrow> 'a \<Rightarrow> nat option" where
  "py_index [] x = None"
| "py_index (y # ys) x = (if y = x then Some 0 else map_option Suc (py_index ys x))"

text \<open>
  \<open>Gate.cycle\<close> of stamp.py. The source guards \<open>index\<close> by a membership test and falls
  back to index 0; the \<open>None\<close> case of \<open>py_index\<close> is that fallback.
\<close>

definition cycle :: "gate \<Rightarrow> gate" where
  "cycle g =
     (let idx = (if gstate g \<in> set GATE_CYCLE
                 then (case py_index GATE_CYCLE (gstate g) of Some i \<Rightarrow> i | None \<Rightarrow> 0)
                 else 0)
      in g\<lparr>gstate := GATE_CYCLE ! ((idx + 1) mod length GATE_CYCLE)\<rparr>)"

definition gate_compact :: "gate \<Rightarrow> ustr" where
  "gate_compact g = letter g @ gstate g"

section \<open>Gates (gently\_tiers.py)\<close>

datatype GateState = G_OPEN | G_HALF | G_YES | G_NO | G_REVISIT

record tgate =
  tg_letter :: ustr
  tg_question :: ustr
  tg_state :: GateState

definition cycle_order :: "GateState list" where
  "cycle_order = [G_OPEN, G_HALF, G_YES, G_NO]"

text \<open>\<open>Gate.cycle\<close> of gently\_tiers.py: a state outside the order is left as it is.\<close>

definition tcycle :: "tgate \<Rightarrow> tgate" where
  "tcycle g =
     (if tg_state g \<in> set cycle_order
      then (case py_index cycle_order (tg_state g) of
              Some i \<Rightarrow> g\<lparr>tg_state := cycle_order ! ((i + 1) mod length cycle_order)\<rparr>
            | None \<Rightarrow> g)
      else g)"

fun gate_state_value :: "GateState \<Rightarrow> ustr" where
  "gate_state_value G_OPEN = GLYPH_OPEN"
| "gate_state_value G_HALF = GLYPH_HALF"
| "gate_state_value G_YES = GLYPH_YES"
| "gate_state_value G_NO = GLYPH_NO"
| "gate_state_value G_REVISIT = GLYPH_REVISIT"

definition sym :: "tgate \<Rightarrow> ustr" where
  "sym g = tg_letter g @ gate_state_value (tg_state g)"

section \<open>The stamp codec (stamp.py)\<close>

record stamp =
  branch :: ustr
  depth :: int
  max_depth :: int
  parent :: ustr
  parent_depth :: int
  state :: ustr
  gates :: "gate list"
  pin :: ustr
  look :: ustr
  chain :: ustr
  timestamp :: ustr

text \<open>The dataclass defaults: \<open>Stamp()\<close>.\<close>

definition Stamp0 :: stamp where
  "Stamp0 = \<lparr>branch = [], depth = 0, max_depth = 0, parent = [], parent_depth = 0,
     state = lit ''OPEN'', gates = [], pin = [], look = [], chain = [], timestamp = []\<rparr>"

text \<open>
  \<open>Stamp.compact\<close>. The clock reading \<open>datetime.now()\<close> is a parameter. A Python string
  is false exactly when it is empty.
\<close>

definition compact_parts :: "datetime \<Rightarrow> stamp \<Rightarrow> ustr list" where
  "compact_parts now s =
     (let ts = strftime_mdTHM now;
          gate_str = concat (map gate_compact (gates s));
          parent_str = (if parent s \<noteq> [] then parent s @ lit ''@d'' @ str_int (parent_depth s) else []);
          pin_short = (if pin s \<noteq> [] then replace_char SPACE DASH (take 30 (pin s)) else [])
      in [lit ''OLO'',
          if branch s \<noteq> [] then TAG_BRANCH # branch s else [],
          TAG_DEPTH # str_int (depth s) @ lit ''/'' @ str_int (max_depth s),
          if parent_str \<noteq> [] then TAG_PARENT # parent_str else [],
          TAG_STATE # state s,
          if gate_str \<noteq> [] then TAG_GATES # gate_str else [],
          if pin_short \<noteq> [] then TAG_PIN # pin_short else [],
          if look s \<noteq> [] then TAG_LOOK # look s else [],
          if chain s \<noteq> [] then TAG_CHAIN # chain s else [],
          TAG_TIME # ts])"

definition compact :: "datetime \<Rightarrow> stamp \<Rightarrow> ustr" where
  "compact now s = lit ''['' @ join (lit ''|'') (filter (\<lambda>p. p \<noteq> []) (compact_parts now s)) @ lit '']''"

datatype error = ValueError

text \<open>The \<open>while i + 1 < len(gs)\<close> loop of the decoder: two characters per gate.\<close>

fun gate_pairs :: "ustr \<Rightarrow> gate list" where
  "gate_pairs (a # b # rest) = \<lparr>letter = [a], question = [], gstate = [b]\<rparr> # gate_pairs rest"
| "gate_pairs _ = []"

text \<open>
  One round of the \<open>for part in parts\<close> loop: the \<open>if\<close>/\<open>elif\<close> chain in the order of
  the source. \<open>int\<close> may raise, which ends the whole decode.
\<close>

definition parse_part :: "stamp \<Rightarrow> ustr \<Rightarrow> error + stamp" where
  "parse_part st part =
     (if part = lit ''OLO'' then Inr st
      else if startswith part [TAG_BRANCH] then Inr (st\<lparr>branch := drop 1 part\<rparr>)
      else if startswith part [TAG_DEPTH] then
        (let nums = split SLASH (drop 1 part)
         in case nums of
              [] \<Rightarrow> Inl ValueError
            | n0 # rest \<Rightarrow>
                (case py_int n0 of
                   None \<Rightarrow> Inl ValueError
                 | Some d \<Rightarrow>
                     (case rest of
                        [] \<Rightarrow> Inr (st\<lparr>depth := d, max_depth := 0\<rparr>)
                      | n1 # _ \<Rightarrow>
                          (case py_int n1 of
                             None \<Rightarrow> Inl ValueError
                           | Some m \<Rightarrow> Inr (st\<lparr>depth := d, max_depth := m\<rparr>)))))
      else if startswith part [TAG_PARENT] then
        (let ref = drop 1 part
         in case rfind (lit ''@d'') ref of
              Some i \<Rightarrow>
                (case py_int (drop (i + 2) ref) of
                   None \<Rightarrow> Inl ValueError
                 | Some dp \<Rightarrow> Inr (st\<lparr>parent := take i ref, parent_depth := dp\<rparr>))
            | None \<Rightarrow> Inr (st\<lparr>parent := ref\<rparr>))
      else if startswith part [TAG_STATE] then Inr (st\<lparr>state := drop 1 part\<rparr>)
      else if startswith part [TAG_GATES] then Inr (st\<lparr>gates := gates st @ gate_pairs (drop 1 part)\<rparr>)
      else if startswith part [TAG_PIN] then Inr (st\<lparr>pin := replace_char DASH SPACE (drop 1 part)\<rparr>)
      else if startswith part [TAG_LOOK] then Inr (st\<lparr>look := drop 1 part\<rparr>)
      else if startswith part [TAG_CHAIN] then Inr (st\<lparr>chain := drop 1 part\<rparr>)
      else if startswith part [TAG_TIME] then Inr (st\<lparr>timestamp := drop 1 part\<rparr>)
      else Inr st)"

fun parse_parts :: "stamp \<Rightarrow> ustr list \<Rightarrow> error + stamp" where
  "parse_parts st [] = Inr st"
| "parse_parts st (part # parts) =
     (case parse_part st part of Inl e \<Rightarrow> Inl e | Inr st' \<Rightarrow> parse_parts st' parts)"

text \<open>
  \<open>Stamp.parse_compact\<close>: \<open>Inr None\<close> is the returned \<open>None\<close>, \<open>Inl\<close> a raised exception.
  \<open>line[1:-1]\<close> drops the first and the last character.
\<close>

definition parse_compact :: "ustr \<Rightarrow> error + stamp option" where
  "parse_compact line =
     (if \<not> startswith line (lit ''[OLO|'') \<or> \<not> endswith line (lit '']'') then Inr None
      else (case parse_parts Stamp0 (split SEP (butlast (drop 1 line))) of
              Inl e \<Rightarrow> Inl e
            | Inr st \<Rightarrow> Inr (Some st)))"

section \<open>Sample values\<close>

definition gate_A :: gate where
  "gate_A = \<lparr>letter = lit ''A'', question = lit ''Blue?'', gstate = GLYPH_YES\<rparr>"

definition gate_R :: gate where
  "gate_R = \<lparr>letter = lit ''B'', question = lit ''JPEG as kill mechanism?'', gstate = GLYPH_REVISIT\<rparr>"

definition tgate_B :: tgate where
  "tgate_B = \<lparr>tg_letter = lit ''B'', tg_question = lit ''JPEG kill?'', tg_state = G_NO\<rparr>"

section \<open>The declared domains of a stamp\<close>

text \<open>
  The inputs of the round-trip law: free-text fields without the separator, and gates
  whose letter and state are one character each (a letter, and one of the six glyphs).
\<close>

definition sep_free :: "ustr \<Rightarrow> bool" where
  "sep_free s = (SEP \<notin> set s)"

definition gate_ok :: "gate \<Rightarrow> bool" where
  "gate_ok g = (length (letter g) = 1 \<and> length (gstate g) = 1
     \<and> sep_free (letter g) \<and> sep_free (gstate g))"

definition stamp_ok :: "stamp \<Rightarrow> bool" where
  "stamp_ok r = (sep_free (branch r) \<and> sep_free (parent r) \<and> sep_free (state r)
     \<and> list_all gate_ok (gates r) \<and> sep_free (pin r) \<and> sep_free (look r) \<and> sep_free (chain r))"

definition now_sample :: datetime where
  "now_sample = \<lparr>dt_month = 11, dt_day = 4, dt_hour = 7, dt_minute = 5\<rparr>"

definition stamp_demo :: stamp where
  "stamp_demo = \<lparr>branch = lit ''olo-guard/blue-channel'', depth = 7, max_depth = 12,
     parent = lit ''jpeg-base'', parent_depth = 4, state = lit ''OPEN'',
     gates = [\<lparr>letter = lit ''A'', question = lit ''Blue channel for verification?'', gstate = GLYPH_YES\<rparr>,
              \<lparr>letter = lit ''B'', question = lit ''JPEG as kill mechanism?'', gstate = GLYPH_REVISIT\<rparr>],
     pin = lit ''blue dies in JPEG 4:2:0'', look = lit ''blue-base,jpeg-v2'',
     chain = lit ''core3->'', timestamp = []\<rparr>"

section \<open>The tier model (gently\_tiers.py)\<close>

datatype ForkType = EXPLORE | PIVOT | REFINE | CHALLENGE | MERGE | DEAD

datatype ConvState = OPEN | GATE | DONE | FORK | HOLD

datatype ArtifactOrigin = MANUAL | TIER_AUTO | EDITED | INJECTED

fun fork_type_value :: "ForkType \<Rightarrow> ustr" where
  "fork_type_value EXPLORE = lit ''explore''"
| "fork_type_value PIVOT = lit ''pivot''"
| "fork_type_value REFINE = lit ''refine''"
| "fork_type_value CHALLENGE = lit ''challenge''"
| "fork_type_value MERGE = lit ''merge''"
| "fork_type_value DEAD = lit ''dead''"

fun conv_state_value :: "ConvState \<Rightarrow> ustr" where
  "conv_state_value OPEN = lit ''OPEN''"
| "conv_state_value GATE = lit ''GATE''"
| "conv_state_value DONE = lit ''DONE''"
| "conv_state_value FORK = lit ''FORK''"
| "conv_state_value HOLD = lit ''HOLD''"

abbreviation NEWLINE :: nat where "NEWLINE \<equiv> 10"
abbreviation QUOTE :: nat where "QUOTE \<equiv> 34"

text \<open>The dictionary that \<open>Gate.snapshot\<close> returns, with its three keys.\<close>

record snapshot =
  snap_letter :: ustr
  snap_question :: ustr
  snap_state :: ustr

definition gate_snapshot_of :: "tgate \<Rightarrow> snapshot" where
  "gate_snapshot_of g = \<lparr>snap_letter = tg_letter g, snap_question = tg_question g,
     snap_state = gate_state_value (tg_state g)\<rparr>"

record tbranch =
  b_id :: ustr
  b_name :: ustr
  fork_type :: ForkType
  forked_at_depth :: int
  b_depth :: int
  conv_state :: ConvState
  b_pin :: ustr
  stamp_at_fork :: ustr

text \<open>\<open>Branch.summary\<close>; every fork type is a key of the glyph dictionary \<open>ft\<close>.\<close>

fun fork_glyph :: "ForkType \<Rightarrow> ustr" where
  "fork_glyph EXPLORE = [0x2192]"
| "fork_glyph PIVOT = [0x21BB]"
| "fork_glyph CHALLENGE = [0x2694]"
| "fork_glyph REFINE = [0x25B7]"
| "fork_glyph MERGE = [0x2727]"
| "fork_glyph DEAD = [0x2715]"

definition branch_summary :: "tbranch \<Rightarrow> ustr" where
  "branch_summary b =
     (let status = (if conv_state b = DONE then GLYPH_YES
                    else if b_depth b > 0 then GLYPH_HALF else GLYPH_OPEN)
      in status @ lit '' '' @ fork_glyph (fork_type b) @ lit '' '' @ b_name b
         @ lit '' [d='' @ str_int (b_depth b) @ lit ''] '' @ [QUOTE] @ b_pin b @ [QUOTE])"

record artifact =
  a_id :: ustr
  a_name :: ustr
  content :: ustr
  origin :: ArtifactOrigin
  source_tier :: int
  source_branch :: "ustr option"
  gate_snapshot :: "snapshot list"
  stamp_at_creation :: ustr
  status :: ustr

record tier =
  level :: int
  master_depth :: int
  master_state :: ConvState
  master_pin :: ustr
  branches :: "tbranch list"
  frozen :: bool
  frozen_stamp :: ustr
  promoted_by :: ustr

text \<open>\<open>Tier(level=n)\<close>, the other fields at their defaults.\<close>

definition Tier_init :: "int \<Rightarrow> tier" where
  "Tier_init n = \<lparr>level = n, master_depth = 0, master_state = OPEN, master_pin = [],
     branches = [], frozen = False, frozen_stamp = [], promoted_by = []\<rparr>"

text \<open>\<open>Tier.make_stamp\<close>, with the clock reading as a parameter.\<close>

definition make_stamp :: "datetime \<Rightarrow> ustr \<Rightarrow> tgate list \<Rightarrow> tier \<Rightarrow> ustr" where
  "make_stamp now project_id gs t =
     (let gstr = concat (map sym gs);
          ts = strftime_mdTHM now;
          pin_short = (if master_pin t \<noteq> [] then replace_char SPACE DASH (take 25 (master_pin t)) else []);
          parts = [lit ''OLO'',
                   TAG_BRANCH # lit ''t'' @ str_int (level t) @ lit ''/'' @ project_id,
                   TAG_DEPTH # str_int (master_depth t),
                   TAG_STATE # conv_state_value (master_state t),
                   if gstr \<noteq> [] then TAG_GATES # gstr else [],
                   if pin_short \<noteq> [] then TAG_PIN # pin_short else []]
                  @ (if level t > 0 then [TAG_PARENT # lit ''t'' @ str_int (level t - 1)] else [])
                  @ [TAG_TIME # ts]
      in lit ''['' @ join (lit ''|'') (filter (\<lambda>p. p \<noteq> []) parts) @ lit '']'')"

text \<open>
  The project. Artifact objects are shared by the artifact list and the bucket, and
  \<open>inject\<close> mutates one in place, so the artifacts live in a store (\<open>heap\<close>, an address
  is a position in it) and both lists hold addresses. The tiers are held by the tier list
  alone, so that list holds them by value and a reference to a tier is its position.
\<close>

record project =
  p_id :: ustr
  p_name :: ustr
  color :: ustr
  p_gates :: "tgate list"
  tiers :: "tier list"
  heap :: "artifact list"
  artifacts :: "nat list"
  bucket :: "nat list"

text \<open>\<open>Project(id, name, color)\<close> with its gates set: no tiers, no artifacts.\<close>

definition Project_init :: "ustr \<Rightarrow> ustr \<Rightarrow> ustr \<Rightarrow> tgate list \<Rightarrow> project" where
  "Project_init i n c gs = \<lparr>p_id = i, p_name = n, color = c, p_gates = gs, tiers = [],
     heap = [], artifacts = [], bucket = []\<rparr>"

text \<open>\<open>Project.\_new\_tier\<close>: returns the position of the new tier.\<close>

definition new_tier :: "project \<Rightarrow> nat \<times> project" where
  "new_tier p = (length (tiers p), p\<lparr>tiers := tiers p @ [Tier_init (int (length (tiers p)))]\<rparr>)"

text \<open>The loop \<open>for t in reversed(self.tiers): if not t.frozen: return t\<close>.\<close>

fun last_unfrozen :: "tier list \<Rightarrow> nat option" where
  "last_unfrozen [] = None"
| "last_unfrozen (t # ts) =
     (case last_unfrozen ts of
        Some i \<Rightarrow> Some (Suc i)
      | None \<Rightarrow> if \<not> frozen t then Some 0 else None)"

definition current_tier :: "project \<Rightarrow> nat \<times> project" where
  "current_tier p =
     (case last_unfrozen (tiers p) of Some i \<Rightarrow> (i, p) | None \<Rightarrow> new_tier p)"

definition init_project :: "project \<Rightarrow> project" where
  "init_project p = (if tiers p = [] then snd (new_tier p) else p)"

definition branch_from_master :: "datetime \<Rightarrow> ustr \<Rightarrow> ForkType \<Rightarrow> project \<Rightarrow> tbranch \<times> project" where
  "branch_from_master now name ft p =
     (let (i, p1) = current_tier p;
          tier = tiers p1 ! i;
          b = \<lparr>b_id = lit ''b'' @ str_nat (length (branches tier)) @ lit ''-'' @ name,
               b_name = name, fork_type = ft, forked_at_depth = master_depth tier,
               b_depth = 0, conv_state = OPEN, b_pin = [],
               stamp_at_fork = make_stamp now (p_id p1) (p_gates p1) tier\<rparr>
      in (b, p1\<lparr>tiers := (tiers p1)[i := tier\<lparr>branches := branches tier @ [b]\<rparr>]\<rparr>))"

text \<open>
  \<open>Project.collect\_artifact\<close>: returns the address of the new artifact. The source
  looks no branch up: \<open>branch\_id\<close> is only stored.
\<close>

definition collect_artifact :: "datetime \<Rightarrow> ustr \<Rightarrow> ustr \<Rightarrow> ustr \<Rightarrow> project \<Rightarrow> nat \<times> project" where
  "collect_artifact now branch_id name cont p =
     (let (i, p1) = current_tier p;
          tier = tiers p1 ! i;
          art = \<lparr>a_id = lit ''art-'' @ str_nat (length (artifacts p1)),
                 a_name = name, content = cont, origin = MANUAL,
                 source_tier = level tier, source_branch = Some branch_id,
                 gate_snapshot = map gate_snapshot_of (p_gates p1),
                 stamp_at_creation = make_stamp now (p_id p1) (p_gates p1) tier,
                 status = lit ''available''\<rparr>;
          r = length (heap p1)
      in (r, p1\<lparr>heap := heap p1 @ [art], artifacts := artifacts p1 @ [r],
                 bucket := bucket p1 @ [r]\<rparr>))"

text \<open>\<open>next((a for a in self.bucket if a.id == artifact\_id), None)\<close>.\<close>

definition find_in_bucket :: "project \<Rightarrow> ustr \<Rightarrow> nat option" where
  "find_in_bucket p artifact_id = find (\<lambda>r. a_id (heap p ! r) = artifact_id) (bucket p)"

definition auto_content :: "tgate list \<Rightarrow> tier \<Rightarrow> artifact \<Rightarrow> ustr" where
  "auto_content gs old_tier art =
     (let branch_pins = map (\<lambda>b. lit ''  '' @ branch_summary b) (branches old_tier)
      in lit ''=== TIER '' @ str_int (level old_tier) @ lit '' CONCLUSION ==='' @ [NEWLINE]
         @ lit ''Master was at depth '' @ str_int (master_depth old_tier) @ lit '', state ''
         @ conv_state_value (master_state old_tier) @ [NEWLINE]
         @ lit ''Master pin: '' @ [QUOTE] @ master_pin old_tier @ [QUOTE] @ [NEWLINE]
         @ lit ''Gates: '' @ join (lit '' '') (map sym gs) @ [NEWLINE]
         @ [NEWLINE]
         @ lit ''Branches explored:'' @ [NEWLINE]
         @ join [NEWLINE] branch_pins @ [NEWLINE]
         @ [NEWLINE]
         @ lit ''Promoted by: '' @ a_name art @ [NEWLINE]
         @ lit ''Injected content: '' @ take 100 (content art) @ lit ''...'' @ [NEWLINE]
         @ [NEWLINE]
         @ lit ''Frozen stamp: '' @ frozen_stamp old_tier)"

text \<open>
  \<open>Project.inject\<close>. The result is the pair of the new tier's position and the
  automatic artifact's address, or \<open>None\<close> for the returned \<open>(None, None)\<close>.
\<close>

definition inject :: "datetime \<Rightarrow> ustr \<Rightarrow> project \<Rightarrow> (nat \<times> nat) option \<times> project" where
  "inject now artifact_id p =
     (case find_in_bucket p artifact_id of
        None \<Rightarrow> (None, p)
      | Some r \<Rightarrow>
          (let p1 = p\<lparr>heap := (heap p)[r := (heap p ! r)\<lparr>status := lit ''injected''\<rparr>]\<rparr>;
               art = heap p1 ! r;
               (i, p2) = current_tier p1;
               old0 = (tiers p2 ! i)\<lparr>frozen := True\<rparr>;
               old1 = old0\<lparr>frozen_stamp := make_stamp now (p_id p2) (p_gates p2) old0\<rparr>;
               old_tier = old1\<lparr>promoted_by := artifact_id\<rparr>;
               p3 = p2\<lparr>tiers := (tiers p2)[i := old_tier]\<rparr>;
               auto_art = \<lparr>a_id = lit ''tier-'' @ str_int (level old_tier) @ lit ''-auto'',
                            a_name = lit ''Tier '' @ str_int (level old_tier) @ lit '': ''
                                       @ master_pin old_tier,
                            content = auto_content (p_gates p3) old_tier art,
                            origin = TIER_AUTO, source_tier = level old_tier,
                            source_branch = None,
                            gate_snapshot = map gate_snapshot_of (p_gates p3),
                            stamp_at_creation = frozen_stamp old_tier,
                            status = lit ''available''\<rparr>;
               a = length (heap p3);
               p4 = p3\<lparr>heap := heap p3 @ [auto_art], artifacts := artifacts p3 @ [a]\<rparr>;
               (j, p5) = new_tier p4;
               p6 = p5\<lparr>tiers := (tiers p5)[j := (tiers p5 ! j)\<lparr>master_pin :=
                          lit ''promoted from tier '' @ str_int (level old_tier)\<rparr>]\<rparr>
           in (Some (j, a), p6)))"

text \<open>The engine operations, and a run of them from a project state.\<close>

datatype op =
    BranchFromMaster datetime ustr ForkType
  | CollectArtifact datetime ustr ustr ustr
  | Inject datetime ustr
  | CurrentTier

fun apply_op :: "op \<Rightarrow> project \<Rightarrow> project" where
  "apply_op (BranchFromMaster now name ft) p = snd (branch_from_master now name ft p)"
| "apply_op (CollectArtifact now branch_id name cont) p = snd (collect_artifact now branch_id name cont p)"
| "apply_op (Inject now artifact_id) p = snd (inject now artifact_id p)"
| "apply_op CurrentTier p = snd (current_tier p)"

fun run :: "op list \<Rightarrow> project \<Rightarrow> project" where
  "run [] p = p"
| "run (x # xs) p = run xs (apply_op x p)"

text \<open>
  The invariants of the data model: the references of both lists point into the store,
  and every tier's level is its position in the tier list.
\<close>

definition refs_ok :: "project \<Rightarrow> bool" where
  "refs_ok p = (list_all (\<lambda>r. r < length (heap p)) (artifacts p)
     \<and> list_all (\<lambda>r. r < length (heap p)) (bucket p))"

definition levels_ok :: "project \<Rightarrow> bool" where
  "levels_ok p = (map level (tiers p) = map int [0..<length (tiers p)])"

text \<open>The tier as step 1 of \<open>inject\<close> leaves it: the three assignments of the freeze.\<close>

definition freeze :: "datetime \<Rightarrow> ustr \<Rightarrow> project \<Rightarrow> tier \<Rightarrow> tier" where
  "freeze now aid p t = t\<lparr>frozen := True,
     frozen_stamp := make_stamp now (p_id p) (p_gates p) (t\<lparr>frozen := True\<rparr>),
     promoted_by := aid\<rparr>"

text \<open>
  The shape of the tier list in every state the engine reaches: all tiers frozen but the
  last one, which is the active tier.
\<close>

definition one_active :: "project \<Rightarrow> bool" where
  "one_active p = (tiers p \<noteq> [] \<and> list_all frozen (butlast (tiers p)) \<and> \<not> frozen (last (tiers p)))"

definition inv :: "project \<Rightarrow> bool" where
  "inv p = (one_active p \<and> levels_ok p \<and> refs_ok p)"

text \<open>
  The demonstration of gently\_tiers.py, cut short: a project with two gates, a branch, an
  artifact collected from it (\<open>demo1\<close>), and the state after injecting it (\<open>demo2\<close>).
\<close>

definition demo_gates :: "tgate list" where
  "demo_gates = [\<lparr>tg_letter = lit ''A'', tg_question = lit ''Blue?'', tg_state = G_YES\<rparr>,
                 \<lparr>tg_letter = lit ''B'', tg_question = lit ''JPEG?'', tg_state = G_OPEN\<rparr>]"

definition demo0 :: project where
  "demo0 = init_project (Project_init (lit ''olo'') (lit ''OLO Guard'') (lit ''#00e5a0'') demo_gates)"

definition demo1 :: project where
  "demo1 = run [BranchFromMaster now_sample (lit ''jpeg-test'') EXPLORE,
                CollectArtifact now_sample (lit ''b0-jpeg-test'') (lit ''jpeg-findings'')
                  (lit ''JPEG kills blue'')] demo0"

definition demo2 :: project where
  "demo2 = snd (inject now_sample (lit ''art-0'') demo1)"

section \<open>The flat model (gently\_model.py)\<close>

text \<open>
  The earlier model of the same engine: one master chat, branches, and a bucket. Its
  gates, fork types and conversation states are those of gently\_tiers.py. Only the two
  operations that look an id up are embedded, with what they call.
\<close>

datatype ArtifactStatus = S_COLLECTED | S_STAGED | S_INJECTED | S_EDITED

record mstamp =
  ms_project_id :: ustr
  ms_branch_id :: "ustr option"
  ms_depth :: int
  ms_max_depth :: int
  ms_conv_state :: ConvState
  ms_gates :: "tgate list"
  ms_pin :: ustr
  ms_parent_id :: "ustr option"
  ms_fork_type :: "ForkType option"

abbreviation TAG_FORK :: nat where "TAG_FORK \<equiv> 0x1F500"

text \<open>
  \<open>Stamp.compact\<close> of gently\_model.py. \<open>None\<close> and the empty string are both false in
  \<open>self.branch\_id or "master"\<close> and in \<open>if self.parent\_id\<close>; a fork type is always true.
\<close>

definition mcompact :: "datetime \<Rightarrow> mstamp \<Rightarrow> ustr" where
  "mcompact now s =
     (let ts = strftime_mdTHM now;
          gs = concat (map sym (ms_gates s));
          branch = (case ms_branch_id s of None \<Rightarrow> lit ''master''
                    | Some b \<Rightarrow> if b \<noteq> [] then b else lit ''master'');
          pin_short = (if ms_pin s \<noteq> [] then replace_char SPACE DASH (take 25 (ms_pin s)) else []);
          parts = [lit ''OLO'',
                   TAG_BRANCH # ms_project_id s @ lit ''/'' @ branch,
                   TAG_DEPTH # str_int (ms_depth s) @ lit ''/'' @ str_int (ms_max_depth s),
                   TAG_STATE # conv_state_value (ms_conv_state s),
                   if gs \<noteq> [] then TAG_GATES # gs else [],
                   if pin_short \<noteq> [] then TAG_PIN # pin_short else []]
                  @ (case ms_parent_id s of None \<Rightarrow> []
                     | Some pa \<Rightarrow> if pa \<noteq> [] then [TAG_PARENT # pa @ lit ''@d'' @ str_int (ms_depth s)]
                                 else [])
                  @ (case ms_fork_type s of None \<Rightarrow> []
                     | Some ft \<Rightarrow> [TAG_FORK # fork_type_value ft])
                  @ [TAG_TIME # ts]
      in lit ''['' @ join (lit ''|'') (filter (\<lambda>p. p \<noteq> []) parts) @ lit '']'')"

record martifact =
  ma_id :: ustr
  ma_name :: ustr
  ma_content :: ustr
  ma_source_branch :: ustr
  ma_source_depth :: int
  ma_status :: ArtifactStatus
  ma_fork_type :: "ForkType option"
  ma_stamp_at_capture :: ustr
  ma_edited_content :: "ustr option"

text \<open>A branch holds the addresses of its artifacts, which the bucket shares.\<close>

record mbranch =
  mb_id :: ustr
  mb_name :: ustr
  mb_fork_type :: ForkType
  mb_forked_at_depth :: int
  mb_stamp_at_fork :: ustr
  mb_depth :: int
  mb_conv_state :: ConvState
  mb_pin :: ustr
  mb_artifacts :: "nat list"
  mb_order :: int

definition branch_make_stamp :: "ustr \<Rightarrow> tgate list \<Rightarrow> mbranch \<Rightarrow> mstamp" where
  "branch_make_stamp project_id gs b =
     \<lparr>ms_project_id = project_id, ms_branch_id = Some (mb_id b), ms_depth = mb_depth b,
      ms_max_depth = mb_depth b, ms_conv_state = mb_conv_state b, ms_gates = gs,
      ms_pin = mb_pin b, ms_parent_id = Some (lit ''master''),
      ms_fork_type = Some (mb_fork_type b)\<rparr>"

record master_chat =
  mc_depth :: int
  mc_max_depth :: int
  mc_conv_state :: ConvState
  mc_pin :: ustr

record mproject =
  mp_id :: ustr
  mp_name :: ustr
  mp_color :: ustr
  mp_master :: master_chat
  mp_branches :: "mbranch list"
  mp_gates :: "tgate list"
  mp_heap :: "martifact list"
  mp_bucket :: "nat list"

text \<open>\<open>next((b for b in self.branches if b.id == branch\_id), None)\<close>, as a position.\<close>

fun first_index :: "('a \<Rightarrow> bool) \<Rightarrow> 'a list \<Rightarrow> nat option" where
  "first_index P [] = None"
| "first_index P (x # xs) = (if P x then Some 0 else map_option Suc (first_index P xs))"

text \<open>\<open>Project.collect\_from\_branch\<close>: the address of the new artifact, or \<open>None\<close>.\<close>

definition collect_from_branch :: "datetime \<Rightarrow> ustr \<Rightarrow> ustr \<Rightarrow> ustr \<Rightarrow> mproject \<Rightarrow> nat option \<times> mproject" where
  "collect_from_branch now branch_id name cont p =
     (case first_index (\<lambda>b. mb_id b = branch_id) (mp_branches p) of
        None \<Rightarrow> (None, p)
      | Some i \<Rightarrow>
          (let branch = mp_branches p ! i;
               art = \<lparr>ma_id = lit ''art-'' @ str_nat (length (mp_bucket p)),
                      ma_name = name, ma_content = cont, ma_source_branch = branch_id,
                      ma_source_depth = mb_depth branch, ma_status = S_COLLECTED,
                      ma_fork_type = Some (mb_fork_type branch),
                      ma_stamp_at_capture =
                        mcompact now (branch_make_stamp (mp_id p) (mp_gates p) branch),
                      ma_edited_content = None\<rparr>;
               r = length (mp_heap p)
           in (Some r,
               p\<lparr>mp_heap := mp_heap p @ [art],
                  mp_branches := (mp_branches p)[i := branch\<lparr>mb_artifacts := mb_artifacts branch @ [r]\<rparr>],
                  mp_bucket := mp_bucket p @ [r]\<rparr>)))"

text \<open>\<open>Project.inject\_to\_master\<close>: the address of the injected artifact, or \<open>None\<close>.\<close>

definition inject_to_master :: "ustr \<Rightarrow> mproject \<Rightarrow> nat option \<times> mproject" where
  "inject_to_master artifact_id p =
     (case find (\<lambda>r. ma_id (mp_heap p ! r) = artifact_id) (mp_bucket p) of
        None \<Rightarrow> (None, p)
      | Some r \<Rightarrow>
          (Some r,
           p\<lparr>mp_heap := (mp_heap p)[r := (mp_heap p ! r)\<lparr>ma_status := S_INJECTED\<rparr>],
              mp_master := (mp_master p)\<lparr>mc_depth := mc_depth (mp_master p) + 1\<rparr>\<rparr>))"

text \<open>A flat project with one branch and one artifact collected from it.\<close>

definition mdemo0 :: mproject where
  "mdemo0 = \<lparr>mp_id = lit ''olo'', mp_name = lit ''OLO Guard'', mp_color = lit ''#00e5a0'',
     mp_master = \<lparr>mc_depth = 0, mc_max_depth = 0, mc_conv_state = OPEN, mc_pin = []\<rparr>,
     mp_branches = [\<lparr>mb_id = lit ''olo-jpeg'', mb_name = lit ''jpeg'', mb_fork_type = EXPLORE,
        mb_forked_at_depth = 0, mb_stamp_at_fork = [], mb_depth = 2, mb_conv_state = OPEN,
        mb_pin = lit ''blue dies'', mb_artifacts = [], mb_order = 0\<rparr>],
     mp_gates = demo_gates, mp_heap = [], mp_bucket = []\<rparr>"

definition mdemo1 :: mproject where
  "mdemo1 = snd (collect_from_branch now_sample (lit ''olo-jpeg'') (lit ''findings'') (lit ''JPEG kills blue'') mdemo0)"

section \<open>Decode rejection\<close>

text \<open>
  C5. A line that does not start with \<open>[OLO|\<close> or does not end with \<open>]\<close> is rejected:
  \<open>parse_compact\<close> returns \<open>None\<close> and raises nothing. In particular the line
  \<open>not a stamp\<close> is rejected.
\<close>

theorem parse_compact_rejects:
  "(\<not> startswith line (lit ''[OLO|'') \<or> \<not> endswith line (lit '']'') \<longrightarrow> parse_compact line = Inr None)
   \<and> parse_compact (lit ''not a stamp'') = Inr None"
  by (simp add: parse_compact_def startswith_def lit_def)

theorem parse_compact_rejects_witness:
  "\<not> endswith (lit ''[OLO|x'') (lit '']'') \<and> parse_compact (lit ''[OLO|x'') = Inr None"
proof -
  have h: "\<not> endswith (lit ''[OLO|x'') (lit '']'')"
    by (simp add: endswith_def lit_def)
  with parse_compact_rejects [of "lit ''[OLO|x''"] show ?thesis
    by blast
qed

section \<open>Gate cycling\<close>
lemma cycle_steps:
  "cycle (g\<lparr>gstate := GLYPH_OPEN\<rparr>) = g\<lparr>gstate := GLYPH_HALF\<rparr>"
  "cycle (g\<lparr>gstate := GLYPH_HALF\<rparr>) = g\<lparr>gstate := GLYPH_YES\<rparr>"
  "cycle (g\<lparr>gstate := GLYPH_YES\<rparr>) = g\<lparr>gstate := GLYPH_NO\<rparr>"
  "cycle (g\<lparr>gstate := GLYPH_NO\<rparr>) = g\<lparr>gstate := GLYPH_OPEN\<rparr>"
  by (simp_all add: cycle_def GATE_CYCLE_def)

lemma cycle_four_upd:
  "s \<in> set GATE_CYCLE \<Longrightarrow>
     cycle (cycle (cycle (cycle (g\<lparr>gstate := s\<rparr>)))) = g\<lparr>gstate := s\<rparr>"
  unfolding GATE_CYCLE_def by (elim disjE | simp add: cycle_steps)+

lemma cycle_four: "gstate g \<in> set GATE_CYCLE \<Longrightarrow> cycle (cycle (cycle (cycle g))) = g"
  using cycle_four_upd [of "gstate g" g] by simp

lemma cycle_inside: "gstate (cycle g) \<in> set GATE_CYCLE"
  by (simp add: cycle_def GATE_CYCLE_def Let_def)

lemma cycle_outside: "gstate (cycle g) \<noteq> GLYPH_BLOCKED" "gstate (cycle g) \<noteq> GLYPH_REVISIT"
  using cycle_inside [of g] by (auto simp add: GATE_CYCLE_def)

lemma tcycle_steps:
  "tcycle (t\<lparr>tg_state := G_OPEN\<rparr>) = t\<lparr>tg_state := G_HALF\<rparr>"
  "tcycle (t\<lparr>tg_state := G_HALF\<rparr>) = t\<lparr>tg_state := G_YES\<rparr>"
  "tcycle (t\<lparr>tg_state := G_YES\<rparr>) = t\<lparr>tg_state := G_NO\<rparr>"
  "tcycle (t\<lparr>tg_state := G_NO\<rparr>) = t\<lparr>tg_state := G_OPEN\<rparr>"
  "tcycle (t\<lparr>tg_state := G_REVISIT\<rparr>) = t\<lparr>tg_state := G_REVISIT\<rparr>"
  by (simp_all add: tcycle_def cycle_order_def)

lemma tcycle_four_upd:
  "s \<in> set cycle_order \<Longrightarrow>
     tcycle (tcycle (tcycle (tcycle (t\<lparr>tg_state := s\<rparr>)))) = t\<lparr>tg_state := s\<rparr>"
  unfolding cycle_order_def by (elim disjE | simp add: tcycle_steps)+

lemma tcycle_four: "tg_state t \<in> set cycle_order \<Longrightarrow> tcycle (tcycle (tcycle (tcycle t))) = t"
  using tcycle_four_upd [of "tg_state t" t] by simp

lemma tcycle_no_entry: "tg_state t \<noteq> G_REVISIT \<Longrightarrow> tg_state (tcycle t) \<noteq> G_REVISIT"
  by (cases "tg_state t") (simp_all add: tcycle_def cycle_order_def)

lemma cycle_fallback: "gstate g \<notin> set GATE_CYCLE \<Longrightarrow> cycle g = g\<lparr>gstate := GLYPH_HALF\<rparr>"
  by (simp add: cycle_def GATE_CYCLE_def)

text \<open>
  C4, as the code has it. Both \<open>cycle\<close> functions advance a gate one step along
  OPEN, HALF, YES, NO and back to OPEN, changing nothing but the state, and four
  applications return a gate of these four states to itself. The \<open>cycle\<close> of stamp.py
  treats every other state as OPEN: the gate goes to HALF, letter and question unchanged;
  so it always ends in one of the four states, never in BLOCKED or REVISIT. The \<open>cycle\<close>
  of gently\_tiers.py leaves a gate in REVISIT as it is, and never moves a gate of another
  state into REVISIT.
\<close>

theorem gate_cycle:
  "cycle (g\<lparr>gstate := GLYPH_OPEN\<rparr>) = g\<lparr>gstate := GLYPH_HALF\<rparr>
   \<and> cycle (g\<lparr>gstate := GLYPH_HALF\<rparr>) = g\<lparr>gstate := GLYPH_YES\<rparr>
   \<and> cycle (g\<lparr>gstate := GLYPH_YES\<rparr>) = g\<lparr>gstate := GLYPH_NO\<rparr>
   \<and> cycle (g\<lparr>gstate := GLYPH_NO\<rparr>) = g\<lparr>gstate := GLYPH_OPEN\<rparr>
   \<and> (gstate g \<in> set GATE_CYCLE \<longrightarrow> cycle (cycle (cycle (cycle g))) = g)
   \<and> (gstate g \<notin> set GATE_CYCLE \<longrightarrow> cycle g = g\<lparr>gstate := GLYPH_HALF\<rparr>)
   \<and> gstate (cycle g) \<in> set GATE_CYCLE
   \<and> gstate (cycle g) \<noteq> GLYPH_BLOCKED \<and> gstate (cycle g) \<noteq> GLYPH_REVISIT
   \<and> tcycle (t\<lparr>tg_state := G_OPEN\<rparr>) = t\<lparr>tg_state := G_HALF\<rparr>
   \<and> tcycle (t\<lparr>tg_state := G_HALF\<rparr>) = t\<lparr>tg_state := G_YES\<rparr>
   \<and> tcycle (t\<lparr>tg_state := G_YES\<rparr>) = t\<lparr>tg_state := G_NO\<rparr>
   \<and> tcycle (t\<lparr>tg_state := G_NO\<rparr>) = t\<lparr>tg_state := G_OPEN\<rparr>
   \<and> (tg_state t \<in> set cycle_order \<longrightarrow> tcycle (tcycle (tcycle (tcycle t))) = t)
   \<and> tcycle (t\<lparr>tg_state := G_REVISIT\<rparr>) = t\<lparr>tg_state := G_REVISIT\<rparr>
   \<and> (tg_state t \<noteq> G_REVISIT \<longrightarrow> tg_state (tcycle t) \<noteq> G_REVISIT)"
  by (intro conjI impI cycle_steps cycle_four cycle_fallback cycle_inside cycle_outside
        tcycle_steps tcycle_four tcycle_no_entry)

theorem gate_cycle_witness:
  "gstate gate_A \<in> set GATE_CYCLE \<and> cycle (cycle (cycle (cycle gate_A))) = gate_A
   \<and> gstate gate_R \<notin> set GATE_CYCLE \<and> cycle gate_R = gate_R\<lparr>gstate := GLYPH_HALF\<rparr>
   \<and> tg_state tgate_B \<in> set cycle_order \<and> tcycle (tcycle (tcycle (tcycle tgate_B))) = tgate_B
   \<and> tg_state tgate_B \<noteq> G_REVISIT \<and> tg_state (tcycle tgate_B) \<noteq> G_REVISIT"
proof -
  have h1: "gstate gate_A \<in> set GATE_CYCLE" by (simp add: gate_A_def GATE_CYCLE_def)
  have h2: "tg_state tgate_B \<in> set cycle_order" by (simp add: tgate_B_def cycle_order_def)
  have h3: "tg_state tgate_B \<noteq> G_REVISIT" by (simp add: tgate_B_def)
  have h4: "gstate gate_R \<notin> set GATE_CYCLE" by (simp add: gate_R_def GATE_CYCLE_def)
  note th = gate_cycle [of gate_A tgate_B]
  note tr = gate_cycle [of gate_R tgate_B]
  from th h1 have c1: "cycle (cycle (cycle (cycle gate_A))) = gate_A" by (elim conjE) (erule (1) mp)
  from th h2 have c2: "tcycle (tcycle (tcycle (tcycle tgate_B))) = tgate_B" by (elim conjE) (erule (1) mp)
  from th h3 have c3: "tg_state (tcycle tgate_B) \<noteq> G_REVISIT" by (elim conjE) (erule (1) mp)
  from tr h4 have c4: "cycle gate_R = gate_R\<lparr>gstate := GLYPH_HALF\<rparr>" by (elim conjE) (erule (1) mp)
  from h1 h2 h3 h4 c1 c2 c3 c4 show ?thesis by (intro conjI)
qed

text \<open>
  The claim as stated, that \<open>cycle\<close> never yields REVISIT from any starting state, fails
  for gently\_tiers.py: from REVISIT the state after \<open>cycle\<close> is REVISIT.
\<close>

theorem gate_cycle_revisit_counterexample:
  "tg_state (tcycle \<lparr>tg_letter = lit ''B'', tg_question = lit ''JPEG kill?'', tg_state = G_REVISIT\<rparr>)
     = G_REVISIT"
  by (simp add: tcycle_def cycle_order_def)

section \<open>Lemmas on strings\<close>

lemma split_nonempty: "split c s \<noteq> []"
  by (induction s) (auto split: list.splits)

lemma split_no_sep: "c \<notin> set p \<Longrightarrow> split c p = [p]"
  by (induction p) auto

lemma split_append_sep: "c \<notin> set p \<Longrightarrow> split c (p @ c # rest) = p # split c rest"
  by (induction p) auto

lemma split_join:
  "ps \<noteq> [] \<Longrightarrow> \<forall>p \<in> set ps. c \<notin> set p \<Longrightarrow> split c (join [c] ps) = ps"
  by (induction "[c]" ps rule: join.induct) (auto simp add: split_no_sep split_append_sep)

lemma str_nat_range: "c \<in> set (str_nat n) \<Longrightarrow> 48 \<le> c \<and> c \<le> 57"
proof (induction n arbitrary: c rule: str_nat.induct)
  case (1 n)
  show ?case
  proof (cases "n < 10")
    case True
    with 1(2) show ?thesis by (subst (asm) str_nat.simps) simp
  next
    case False
    have "n mod 10 < 10" by simp
    then have "48 + n mod 10 \<le> 57" by linarith
    with False 1 show ?thesis by (subst (asm) (2) str_nat.simps) auto
  qed
qed

lemma ascii_decimal: "48 \<le> c \<Longrightarrow> c \<le> 57 \<Longrightarrow> decimal_value c = Some (c - 48)"
  by (simp add: decimal_value_def DECIMAL_ZEROS_def)

lemma ascii_not_space: "48 \<le> c \<Longrightarrow> c \<le> 57 \<Longrightarrow> \<not> is_space c"
  by (auto simp add: is_space_def)

lemma str_nat_digits: "list_all is_digit (str_nat n)"
  using str_nat_range [of _ n] by (auto simp add: list_all_iff is_digit_def ascii_decimal)

lemma str_nat_nonempty: "str_nat n \<noteq> []"
  by (subst str_nat.simps) simp

lemma digits_value_snoc:
  "digits_value (ds @ [d])
     = 10 * digits_value ds + (case decimal_value d of Some v \<Rightarrow> v | None \<Rightarrow> 0)"
  by (simp add: digits_value_def)

lemma digits_value_str_nat: "digits_value (str_nat n) = n"
proof (induction n rule: str_nat.induct)
  case (1 n)
  show ?case
  proof (cases "n < 10")
    case True
    then have "decimal_value (48 + n) = Some n" by (simp add: ascii_decimal)
    with True show ?thesis by (subst str_nat.simps) (simp add: digits_value_def)
  next
    case False
    with 1 have "digits_value (str_nat (n div 10)) = n div 10" by simp
    moreover have "n mod 10 < 10" by simp
    then have "48 + n mod 10 \<le> 57" by linarith
    then have "decimal_value (48 + n mod 10) = Some (n mod 10)" by (simp add: ascii_decimal)
    ultimately show ?thesis using False
      by (subst str_nat.simps) (simp add: digits_value_snoc)
  qed
qed

lemma str_nat_free:
  "UNDERSCORE \<notin> set (str_nat n)" "SEP \<notin> set (str_nat n)" "SLASH \<notin> set (str_nat n)"
  "64 \<notin> set (str_nat n)"
  using str_nat_range [of _ n] by fastforce+

lemma parse_digits_str_nat: "parse_digits (str_nat n) = Some n"
proof -
  have "split UNDERSCORE (str_nat n) = [str_nat n]"
    by (rule split_no_sep) (rule str_nat_free)
  then show ?thesis
    by (simp add: parse_digits_def str_nat_digits str_nat_nonempty digits_value_str_nat)
qed

lemma strip_id:
  assumes "s \<noteq> []" "\<not> is_space (hd s)" "\<not> is_space (last s)"
  shows "strip s = s"
proof -
  have a: "dropWhile is_space s = s"
    using assms by (simp add: dropWhile_eq_self_iff)
  have b: "dropWhile is_space (rev s) = rev s"
    using assms by (simp add: dropWhile_eq_self_iff hd_rev)
  show ?thesis by (simp add: strip_def a b)
qed

lemma str_nat_hd: "48 \<le> hd (str_nat n) \<and> hd (str_nat n) \<le> 57"
  using str_nat_range [of "hd (str_nat n)" n] str_nat_nonempty [of n] by simp

lemma str_nat_last: "48 \<le> last (str_nat n) \<and> last (str_nat n) \<le> 57"
  using str_nat_range [of "last (str_nat n)" n] str_nat_nonempty [of n] by simp

lemma py_int_str_nat: "py_int (str_nat n) = Some (int n)"
proof -
  have s: "strip (str_nat n) = str_nat n"
    by (rule strip_id) (simp_all add: str_nat_nonempty ascii_not_space str_nat_hd str_nat_last)
  obtain c r where cr: "str_nat n = c # r"
    using str_nat_nonempty [of n] by (cases "str_nat n") auto
  then have "48 \<le> c \<and> c \<le> 57" using str_nat_hd [of n] by simp
  then have "c \<noteq> DASH" "c \<noteq> 43" by auto
  moreover have "parse_digits (c # r) = Some n"
    using parse_digits_str_nat [of n] cr by simp
  moreover have "strip (c # r) = c # r" using s cr by simp
  ultimately show ?thesis
    by (simp add: py_int_def cr)
qed

lemma py_int_str_int: "py_int (str_int i) = Some i"
proof (cases "i < 0")
  case False
  then show ?thesis by (simp add: str_int_def py_int_str_nat)
next
  case True
  let ?d = "str_nat (nat (- i))"
  have "\<not> is_space DASH" by (simp add: is_space_def)
  moreover have "\<not> is_space (last (DASH # ?d))"
    using str_nat_last [of "nat (- i)"] str_nat_nonempty [of "nat (- i)"]
    by (simp add: ascii_not_space)
  ultimately have "strip (DASH # ?d) = DASH # ?d"
    by (intro strip_id) simp_all
  with True show ?thesis
    by (simp add: str_int_def py_int_def parse_digits_str_nat)
qed

lemma str_int_free:
  "SEP \<notin> set (str_int i)" "SLASH \<notin> set (str_int i)" "64 \<notin> set (str_int i)"
  by (simp_all add: str_int_def str_nat_free)

lemma pad2_free: "SEP \<notin> set (pad2 n)"
  by (simp add: pad2_def str_nat_free)

lemma strftime_free: "SEP \<notin> set (strftime_mdTHM now)"
  by (simp add: strftime_mdTHM_def pad2_free lit_def)

lemma rfind_none: "a \<notin> set s \<Longrightarrow> rfind [a, b] s = None"
  by (induction s) (auto simp add: startswith_def)

lemma rfind_parent: "64 \<notin> set ds \<Longrightarrow> rfind (lit ''@d'') (p @ lit ''@d'' @ ds) = Some (length p)"
proof (induction p)
  case Nil
  have "rfind (lit ''@d'') (100 # ds) = None"
    using Nil by (simp add: lit_def rfind_none startswith_def)
  then show ?case by (simp add: lit_def startswith_def)
next
  case (Cons x p)
  then show ?case by simp
qed

lemma gate_pairs_compact:
  "list_all (\<lambda>g. length (letter g) = 1 \<and> length (gstate g) = 1) gs \<Longrightarrow>
   gate_pairs (concat (map gate_compact gs))
     = map (\<lambda>g. \<lparr>letter = letter g, question = [], gstate = gstate g\<rparr>) gs"
proof (induction gs)
  case Nil
  show ?case by simp
next
  case (Cons g gs)
  from Cons.prems obtain a b where "letter g = [a]" "gstate g = [b]"
    by (auto simp add: length_Suc_conv)
  with Cons show ?case by (simp add: gate_compact_def)
qed

section \<open>The round trip of the stamp codec\<close>

lemma pp_plain:
  "parse_part st [] = Inr st"
  "parse_part st (lit ''OLO'') = Inr st"
  "parse_part st (TAG_BRANCH # v) = Inr (st\<lparr>branch := v\<rparr>)"
  "parse_part st (TAG_STATE # v) = Inr (st\<lparr>state := v\<rparr>)"
  "parse_part st (TAG_GATES # v) = Inr (st\<lparr>gates := gates st @ gate_pairs v\<rparr>)"
  "parse_part st (TAG_PIN # v) = Inr (st\<lparr>pin := replace_char DASH SPACE v\<rparr>)"
  "parse_part st (TAG_LOOK # v) = Inr (st\<lparr>look := v\<rparr>)"
  "parse_part st (TAG_CHAIN # v) = Inr (st\<lparr>chain := v\<rparr>)"
  "parse_part st (TAG_TIME # v) = Inr (st\<lparr>timestamp := v\<rparr>)"
  by (simp_all add: parse_part_def lit_def startswith_def)

lemma pp_depth:
  "parse_part st (TAG_DEPTH # str_int d @ lit ''/'' @ str_int m)
     = Inr (st\<lparr>depth := d, max_depth := m\<rparr>)"
proof -
  have "split SLASH (str_int d @ SLASH # str_int m) = [str_int d, str_int m]"
    by (simp add: split_append_sep split_no_sep str_int_free)
  then show ?thesis
    by (simp add: parse_part_def lit_def startswith_def py_int_str_int)
qed

lemma pp_parent:
  "parse_part st (TAG_PARENT # p @ lit ''@d'' @ str_int n)
     = Inr (st\<lparr>parent := p, parent_depth := n\<rparr>)"
proof -
  have "rfind (lit ''@d'') (p @ lit ''@d'' @ str_int n) = Some (length p)"
    by (rule rfind_parent) (rule str_int_free)
  moreover have "drop (length p + 2) (p @ lit ''@d'' @ str_int n) = str_int n"
    by (simp add: lit_def)
  ultimately show ?thesis
    by (simp add: parse_part_def startswith_def py_int_str_int) (simp add: lit_def)
qed

lemma parse_parts_filter:
  "parse_parts st (filter (\<lambda>p. p \<noteq> []) ps) = parse_parts st ps"
  by (induction ps arbitrary: st) (simp_all add: pp_plain split: sum.splits)

lemma unwrap: "butlast (drop 1 (lit ''['' @ x @ lit '']'')) = x"
  by (simp add: lit_def butlast_append)

lemma wrapped_ends: "endswith (x @ lit '']'') (lit '']'')"
  by (simp add: endswith_def lit_def)

lemma wrapped_starts:
  "ps \<noteq> [] \<Longrightarrow> startswith (lit ''['' @ join (lit ''|'') (lit ''OLO'' # ps) @ e) (lit ''[OLO|'')"
  by (cases ps) (simp_all add: startswith_def lit_def)

lemma parts_filtered:
  "filter (\<lambda>p. p \<noteq> []) (compact_parts now r)
     = lit ''OLO'' # filter (\<lambda>p. p \<noteq> []) (tl (compact_parts now r))"
  "filter (\<lambda>p. p \<noteq> []) (tl (compact_parts now r)) \<noteq> []"
  by (simp_all add: compact_parts_def Let_def lit_def)

lemma concat_gates_free:
  "list_all gate_ok gs \<Longrightarrow> SEP \<notin> set (concat (map gate_compact gs))"
  by (induction gs) (auto simp add: gate_ok_def sep_free_def gate_compact_def)

lemma parts_free:
  assumes "stamp_ok r"
  shows "\<forall>p \<in> set (compact_parts now r). SEP \<notin> set p"
proof -
  have "SEP \<notin> set (replace_char SPACE DASH (take 30 (pin r)))"
    using assms by (auto simp add: stamp_ok_def sep_free_def replace_char_def dest: in_set_takeD)
  moreover have "\<forall>g \<in> set (gates r). SEP \<notin> set (gate_compact g)"
    using assms
    by (auto simp add: stamp_ok_def list_all_iff gate_ok_def sep_free_def gate_compact_def)
  ultimately show ?thesis
    using assms
    by (simp add: compact_parts_def Let_def stamp_ok_def sep_free_def str_int_free
          strftime_free) (simp add: lit_def)
qed

lemma parse_compact_of_compact:
  assumes "stamp_ok r"
  shows "parse_compact (compact now r)
     = (case parse_parts Stamp0 (compact_parts now r) of
          Inl e \<Rightarrow> Inl e | Inr st \<Rightarrow> Inr (Some st))"
proof -
  let ?F = "filter (\<lambda>p. p \<noteq> []) (compact_parts now r)"
  let ?inner = "join (lit ''|'') ?F"
  have c: "compact now r = lit ''['' @ ?inner @ lit '']''"
    by (simp add: compact_def)
  have s: "startswith (lit ''['' @ ?inner @ lit '']'') (lit ''[OLO|'')"
    by (subst parts_filtered(1)) (rule wrapped_starts, rule parts_filtered(2))
  have e: "endswith (lit ''['' @ ?inner @ lit '']'') (lit '']'')"
    using wrapped_ends [of "lit ''['' @ ?inner"] by simp
  have ne: "?F \<noteq> []"
    by (subst parts_filtered(1)) simp
  have free: "\<forall>p \<in> set ?F. SEP \<notin> set p"
    using parts_free [OF assms, of now] by simp
  have sp: "split SEP ?inner = ?F"
    using split_join [OF ne free] by (simp add: lit_def)
  show ?thesis
    unfolding c parse_compact_def
    by (simp only: s e unwrap sp parse_parts_filter not_True_eq_False simp_thms if_False)
qed

lemma pin_short_nonempty: "(replace_char a b s = []) = (s = [])"
  by (simp add: replace_char_def)

lemma parse_parts_compact_parts:
  assumes "list_all gate_ok (gates r)"
  shows "parse_parts Stamp0 (compact_parts now r) = Inr
     \<lparr>branch = branch r, depth = depth r, max_depth = max_depth r, parent = parent r,
      parent_depth = (if parent r = [] then 0 else parent_depth r),
      state = state r,
      gates = map (\<lambda>g. \<lparr>letter = letter g, question = [], gstate = gstate g\<rparr>) (gates r),
      pin = replace_char DASH SPACE (replace_char SPACE DASH (take 30 (pin r))),
      look = look r, chain = chain r, timestamp = strftime_mdTHM now\<rparr>"
proof -
  have g: "gate_pairs (concat (map gate_compact (gates r)))
     = map (\<lambda>g. \<lparr>letter = letter g, question = [], gstate = gstate g\<rparr>) (gates r)"
    using assms by (intro gate_pairs_compact) (simp add: list_all_iff gate_ok_def)
  have g0: "(\<forall>g \<in> set (gates r). gate_compact g = []) = (gates r = [])"
    using assms by (cases "gates r") (auto simp add: gate_ok_def gate_compact_def)
  show ?thesis
    unfolding compact_parts_def Let_def
    by (auto simp add: pp_plain pp_depth pp_parent g Stamp0_def pin_short_nonempty
          replace_char_def g0)
qed

lemma replace_back: "replace_char SPACE DASH (replace_char DASH SPACE s) = replace_char SPACE DASH s"
  "replace_char DASH SPACE (replace_char SPACE DASH s) = replace_char DASH SPACE s"
  by (simp_all add: replace_char_def)

text \<open>
  C1, as the code has it. For a stamp \<open>r\<close> of the declared domains, decoding the compact
  encoding of \<open>r\<close> returns a stamp with the branch, depth, max\_depth, state, parent,
  look and chain of \<open>r\<close>, the gates of \<open>r\<close> in order with their letters and states
  (the questions are lost), and as pin the first 30 characters of the pin of \<open>r\<close> with
  every dash turned into a space, which is the pin of \<open>r\<close> up to the space/dash
  substitution and the truncation. The parent\_depth of \<open>r\<close> is returned when the parent
  of \<open>r\<close> is not empty; with an empty parent the parent reference is not written and the
  decoded parent\_depth is 0.
\<close>

theorem compact_roundtrip:
  assumes "stamp_ok r"
  shows "parse_compact (compact now r) = Inr (Some
     \<lparr>branch = branch r, depth = depth r, max_depth = max_depth r, parent = parent r,
      parent_depth = (if parent r = [] then 0 else parent_depth r),
      state = state r,
      gates = map (\<lambda>g. \<lparr>letter = letter g, question = [], gstate = gstate g\<rparr>) (gates r),
      pin = replace_char DASH SPACE (take 30 (pin r)),
      look = look r, chain = chain r, timestamp = strftime_mdTHM now\<rparr>)
    \<and> replace_char SPACE DASH (replace_char DASH SPACE (take 30 (pin r)))
        = replace_char SPACE DASH (take 30 (pin r))"
proof -
  from assms have "list_all gate_ok (gates r)" by (simp add: stamp_ok_def)
  then show ?thesis
    by (simp add: parse_compact_of_compact [OF assms] parse_parts_compact_parts replace_back)
qed

lemma stamp_demo_ok: "stamp_ok stamp_demo"
  by (simp add: stamp_demo_def stamp_ok_def sep_free_def gate_ok_def lit_def)

theorem compact_roundtrip_witness:
  "stamp_ok stamp_demo \<and>
   parse_compact (compact now_sample stamp_demo) = Inr (Some
     \<lparr>branch = lit ''olo-guard/blue-channel'', depth = 7, max_depth = 12,
      parent = lit ''jpeg-base'', parent_depth = 4, state = lit ''OPEN'',
      gates = [\<lparr>letter = lit ''A'', question = [], gstate = GLYPH_YES\<rparr>,
               \<lparr>letter = lit ''B'', question = [], gstate = GLYPH_REVISIT\<rparr>],
      pin = lit ''blue dies in JPEG 4:2:0'', look = lit ''blue-base,jpeg-v2'',
      chain = lit ''core3->'', timestamp = lit ''1104T0705''\<rparr>)"
proof -
  have ts: "strftime_mdTHM now_sample = lit ''1104T0705''"
    by (simp add: strftime_mdTHM_def now_sample_def pad2_def str_nat.simps lit_def)
  from compact_roundtrip [OF stamp_demo_ok, of now_sample] show ?thesis
    by (simp add: stamp_demo_ok ts) (simp add: stamp_demo_def lit_def replace_char_def)
qed

text \<open>
  The claim as stated fails for parent\_depth: a stamp with an empty parent and
  parent\_depth 3 decodes to parent\_depth 0.
\<close>

theorem compact_roundtrip_counterexample:
  "stamp_ok (Stamp0\<lparr>parent_depth := 3\<rparr>)
   \<and> parent_depth (Stamp0\<lparr>parent_depth := 3\<rparr>) = 3
   \<and> parse_compact (compact now_sample (Stamp0\<lparr>parent_depth := 3\<rparr>))
       = Inr (Some (Stamp0\<lparr>timestamp := lit ''1104T0705''\<rparr>))
   \<and> parent_depth (Stamp0\<lparr>timestamp := lit ''1104T0705''\<rparr>) = 0"
proof -
  have ok: "stamp_ok (Stamp0\<lparr>parent_depth := 3\<rparr>)"
    by (simp add: Stamp0_def stamp_ok_def sep_free_def lit_def)
  have ts: "strftime_mdTHM now_sample = lit ''1104T0705''"
    by (simp add: strftime_mdTHM_def now_sample_def pad2_def str_nat.simps lit_def)
  have gs: "list_all gate_ok (gates (Stamp0\<lparr>parent_depth := 3\<rparr>))"
    by (simp add: Stamp0_def)
  have "parse_parts Stamp0 (compact_parts now_sample (Stamp0\<lparr>parent_depth := 3\<rparr>))
      = Inr (Stamp0\<lparr>timestamp := lit ''1104T0705''\<rparr>)"
    unfolding parse_parts_compact_parts [OF gs, of now_sample] ts
    by (simp add: Stamp0_def replace_char_def)
  then show ?thesis
    by (simp add: ok parse_compact_of_compact [OF ok]) (simp add: Stamp0_def)
qed

section \<open>The layout of the compact encoding\<close>

text \<open>
  C9, as the code has it. The compact encoding is the bracketed, pipe-joined list of the
  protocol marker, the branch, depth/max\_depth, the parent reference, the state, the gate
  snapshot, the pin, look, chain and the timestamp, in this order. The branch, the parent
  reference, the gate snapshot, the pin, look and chain are written only when they are not
  empty, and are left out with their separator otherwise. The protocol marker,
  depth/max\_depth, the state and the timestamp are always written, also at their
  default values.
\<close>

theorem compact_layout:
  "compact now s = lit ''['' @ join (lit ''|'')
      ([lit ''OLO'']
       @ (if branch s = [] then [] else [TAG_BRANCH # branch s])
       @ [TAG_DEPTH # str_int (depth s) @ lit ''/'' @ str_int (max_depth s)]
       @ (if parent s = [] then []
          else [TAG_PARENT # parent s @ lit ''@d'' @ str_int (parent_depth s)])
       @ [TAG_STATE # state s]
       @ (if concat (map gate_compact (gates s)) = [] then []
          else [TAG_GATES # concat (map gate_compact (gates s))])
       @ (if pin s = [] then [] else [TAG_PIN # replace_char SPACE DASH (take 30 (pin s))])
       @ (if look s = [] then [] else [TAG_LOOK # look s])
       @ (if chain s = [] then [] else [TAG_CHAIN # chain s])
       @ [TAG_TIME # strftime_mdTHM now]) @ lit '']''"
  by (simp add: compact_def compact_parts_def Let_def pin_short_nonempty lit_def)

theorem compact_layout_witness:
  "compact now_sample (Stamp0\<lparr>branch := lit ''b'', pin := lit ''a b''\<rparr>)
     = lit ''[OLO|'' @ [TAG_BRANCH] @ lit ''b|'' @ [TAG_DEPTH] @ lit ''0/0|'' @ [TAG_STATE]
       @ lit ''OPEN|'' @ [TAG_PIN] @ lit ''a-b|'' @ [TAG_TIME] @ lit ''1104T0705]''"
proof -
  have ts: "strftime_mdTHM now_sample = lit ''1104T0705''"
    by (simp add: strftime_mdTHM_def now_sample_def pad2_def str_nat.simps lit_def)
  from compact_layout [of now_sample "Stamp0\<lparr>branch := lit ''b'', pin := lit ''a b''\<rparr>"]
  show ?thesis
    by (simp add: ts Stamp0_def str_int_def str_nat.simps replace_char_def lit_def)
qed

text \<open>
  The claim as stated fails for depth/max\_depth and the state: the default stamp, with
  depth 0, max\_depth 0 and state OPEN, is encoded with both fields written.
\<close>

theorem compact_layout_counterexample:
  "depth Stamp0 = 0 \<and> max_depth Stamp0 = 0 \<and> state Stamp0 = lit ''OPEN''
   \<and> compact now_sample Stamp0
       = lit ''[OLO|'' @ [TAG_DEPTH] @ lit ''0/0|'' @ [TAG_STATE] @ lit ''OPEN|''
         @ [TAG_TIME] @ lit ''1104T0705]''"
  by (simp add: compact_def compact_parts_def Stamp0_def strftime_mdTHM_def now_sample_def
        pad2_def str_int_def str_nat.simps lit_def)

section \<open>The flat model: unknown ids\<close>

lemma first_index_None: "first_index P xs = None \<longleftrightarrow> (\<forall>x \<in> set xs. \<not> P x)"
  by (induction xs) auto

lemma collect_from_branch_unknown:
  assumes "\<forall>b \<in> set (mp_branches p). mb_id b \<noteq> bid"
  shows "collect_from_branch now bid name cont p = (None, p)"
proof -
  have "first_index (\<lambda>b. mb_id b = bid) (mp_branches p) = None"
    using assms by (simp add: first_index_None)
  then show ?thesis by (simp add: collect_from_branch_def)
qed

lemma inject_to_master_unknown:
  assumes "\<forall>r \<in> set (mp_bucket p). ma_id (mp_heap p ! r) \<noteq> aid"
  shows "inject_to_master aid p = (None, p)"
proof -
  have "find (\<lambda>r. ma_id (mp_heap p ! r) = aid) (mp_bucket p) = None"
    using assms by (simp add: find_None_iff)
  then show ?thesis by (simp add: inject_to_master_def)
qed

lemmas mdemo_eval = mdemo1_def mdemo0_def collect_from_branch_def Let_def str_nat.simps lit_def

lemma mdemo1_facts:
  "mp_bucket mdemo1 = [0]" "ma_id (mp_heap mdemo1 ! 0) = lit ''art-0''"
  "map mb_id (mp_branches mdemo1) = [lit ''olo-jpeg'']"
  "fst (collect_from_branch now_sample (lit ''olo-jpeg'') (lit ''findings'') (lit ''JPEG kills blue'') mdemo0) = Some 0"
  by (simp_all add: mdemo_eval)

section \<open>The tier engine\<close>

lemma last_unfrozen_Some:
  "last_unfrozen ts = Some k \<Longrightarrow> k < length ts \<and> \<not> frozen (ts ! k)"
  by (induction ts arbitrary: k) (auto split: option.splits if_splits)

lemma last_unfrozen_after:
  "last_unfrozen ts = Some k \<Longrightarrow> k < j \<Longrightarrow> j < length ts \<Longrightarrow> frozen (ts ! j)"
proof (induction ts arbitrary: k j)
  case Nil
  then show ?case by simp
next
  case (Cons t ts)
  show ?case
  proof (cases "last_unfrozen ts")
    case None
    have "\<And>m. m < length ts \<Longrightarrow> frozen (ts ! m)"
    proof -
      fix m assume "m < length ts"
      then show "frozen (ts ! m)" using None
        by (induction ts arbitrary: m) (auto split: option.splits if_splits simp add: nth_Cons')
    qed
    with Cons.prems show ?thesis by (cases j) auto
  next
    case (Some i)
    with Cons.prems have k: "k = Suc i" by simp
    with Cons.prems obtain j' where j: "j = Suc j'" by (cases j) auto
    with Cons.IH [OF Some, of j'] Cons.prems k show ?thesis by simp
  qed
qed

lemma last_unfrozen_None: "last_unfrozen ts = None \<longleftrightarrow> list_all frozen ts"
  by (induction ts) (auto split: option.splits)

lemma last_unfrozen_snoc:
  "last_unfrozen (ts @ [a]) = (if \<not> frozen a then Some (length ts) else last_unfrozen ts)"
  by (induction ts) (auto split: option.splits)

lemma upd_end: "length xs = n \<Longrightarrow> (xs @ [x])[n := y] = xs @ [y]"
  by auto

lemma nth_end: "length xs = n \<Longrightarrow> (xs @ [x]) ! n = x"
  by auto

lemma current_tier_active:
  "last_unfrozen (tiers p) = Some k \<Longrightarrow> current_tier p = (k, p)"
  by (simp add: current_tier_def)

lemma current_tier_fresh:
  "last_unfrozen (tiers p) = None \<Longrightarrow>
   current_tier p = (length (tiers p), p\<lparr>tiers := tiers p @ [Tier_init (int (length (tiers p)))]\<rparr>)"
  by (simp add: current_tier_def new_tier_def)

lemma inject_unknown: "find_in_bucket p aid = None \<Longrightarrow> inject now aid p = (None, p)"
  by (simp add: inject_def)

lemma inject_active:
  assumes "find_in_bucket p aid = Some r" "last_unfrozen (tiers p) = Some k"
  shows "fst (inject now aid p) = Some (length (tiers p), length (heap p))"
    and "tiers (snd (inject now aid p)) =
      (tiers p)[k := freeze now aid p (tiers p ! k)]
      @ [(Tier_init (int (length (tiers p))))\<lparr>master_pin :=
            lit ''promoted from tier '' @ str_int (level (tiers p ! k))\<rparr>]"
    and "bucket (snd (inject now aid p)) = bucket p"
    and "artifacts (snd (inject now aid p)) = artifacts p @ [length (heap p)]"
    and "length (heap (snd (inject now aid p))) = Suc (length (heap p))"
    and "p_gates (snd (inject now aid p)) = p_gates p"
    and "p_id (snd (inject now aid p)) = p_id p"
  using assms
  by (simp_all add: inject_def current_tier_def new_tier_def Let_def freeze_def upd_end nth_end)

lemma inject_heap:
  assumes "find_in_bucket p aid = Some r"
  shows "\<exists>a. heap (snd (inject now aid p))
            = (heap p)[r := (heap p ! r)\<lparr>status := lit ''injected''\<rparr>] @ [a]
          \<and> origin a = TIER_AUTO \<and> source_branch a = None"
    and "bucket (snd (inject now aid p)) = bucket p"
    and "artifacts (snd (inject now aid p)) = artifacts p @ [length (heap p)]"
  using assms
  by (cases "last_unfrozen (tiers p)";
      simp add: inject_def current_tier_def new_tier_def Let_def)+

lemma inject_fresh:
  assumes "find_in_bucket p aid = Some r" "last_unfrozen (tiers p) = None"
  shows "tiers (snd (inject now aid p)) =
      tiers p @ [freeze now aid p (Tier_init (int (length (tiers p)))),
        (Tier_init (int (Suc (length (tiers p)))))\<lparr>master_pin :=
            lit ''promoted from tier '' @ str_int (int (length (tiers p)))\<rparr>]"
  using assms
  by (simp add: inject_def current_tier_def new_tier_def Let_def freeze_def upd_end nth_end
        Tier_init_def)

lemma branch_effect:
  "heap (snd (branch_from_master now name ft p)) = heap p"
  "bucket (snd (branch_from_master now name ft p)) = bucket p"
  "artifacts (snd (branch_from_master now name ft p)) = artifacts p"
  by (cases "last_unfrozen (tiers p)";
      simp add: branch_from_master_def current_tier_def new_tier_def Let_def)+

lemma branch_tiers:
  "last_unfrozen (tiers p) = Some k \<Longrightarrow>
     tiers (snd (branch_from_master now name ft p))
       = (tiers p)[k := (tiers p ! k)\<lparr>branches := branches (tiers p ! k)
            @ [fst (branch_from_master now name ft p)]\<rparr>]"
  "last_unfrozen (tiers p) = None \<Longrightarrow>
     tiers (snd (branch_from_master now name ft p))
       = tiers p @ [(Tier_init (int (length (tiers p))))\<lparr>branches :=
            [fst (branch_from_master now name ft p)]\<rparr>]"
  by (simp_all add: branch_from_master_def current_tier_def new_tier_def Let_def upd_end nth_end
        Tier_init_def)

lemma collect_effect:
  "\<exists>a. heap (snd (collect_artifact now bid name cont p)) = heap p @ [a]
        \<and> origin a = MANUAL \<and> source_branch a = Some bid \<and> a_name a = name \<and> content a = cont
        \<and> a_id a = lit ''art-'' @ str_nat (length (artifacts p))"
  "bucket (snd (collect_artifact now bid name cont p)) = bucket p @ [length (heap p)]"
  "artifacts (snd (collect_artifact now bid name cont p)) = artifacts p @ [length (heap p)]"
  "fst (collect_artifact now bid name cont p) = length (heap p)"
  by (cases "last_unfrozen (tiers p)";
      simp add: collect_artifact_def current_tier_def new_tier_def Let_def)+

lemma collect_tiers:
  "tiers (snd (collect_artifact now bid name cont p)) = tiers (snd (current_tier p))"
  by (cases "last_unfrozen (tiers p)";
      simp add: collect_artifact_def current_tier_def new_tier_def Let_def)

lemma current_tier_effect:
  "heap (snd (current_tier p)) = heap p"
  "bucket (snd (current_tier p)) = bucket p"
  "artifacts (snd (current_tier p)) = artifacts p"
  "last_unfrozen (tiers p) = Some k \<Longrightarrow> tiers (snd (current_tier p)) = tiers p"
  "last_unfrozen (tiers p) = None \<Longrightarrow>
     tiers (snd (current_tier p)) = tiers p @ [Tier_init (int (length (tiers p)))]"
  by (cases "last_unfrozen (tiers p)"; simp add: current_tier_def new_tier_def)+

lemma one_active_shape:
  "one_active p \<longleftrightarrow> (\<exists>fs a. tiers p = fs @ [a] \<and> list_all frozen fs \<and> \<not> frozen a)"
proof
  assume "one_active p"
  then have "tiers p = butlast (tiers p) @ [last (tiers p)]"
    "list_all frozen (butlast (tiers p))" "\<not> frozen (last (tiers p))"
    by (simp_all add: one_active_def)
  then show "\<exists>fs a. tiers p = fs @ [a] \<and> list_all frozen fs \<and> \<not> frozen a" by blast
next
  assume "\<exists>fs a. tiers p = fs @ [a] \<and> list_all frozen fs \<and> \<not> frozen a"
  then show "one_active p" by (auto simp add: one_active_def)
qed

lemma one_active_last:
  assumes "tiers p = fs @ [a]" "\<not> frozen a"
  shows "last_unfrozen (tiers p) = Some (length fs)"
  using assms by (simp add: last_unfrozen_snoc)

lemma filter_frozen: "list_all frozen fs \<Longrightarrow> filter (\<lambda>t. \<not> frozen t) fs = []"
  by (induction fs) auto

lemma one_active_count:
  "one_active p \<Longrightarrow> length (filter (\<lambda>t. \<not> frozen t) (tiers p)) = 1"
  by (auto simp add: one_active_shape filter_frozen)

lemma levels_snoc:
  "levels_ok (p\<lparr>tiers := fs @ [a]\<rparr>) \<longleftrightarrow>
     map level fs = map int [0..<length fs] \<and> level a = int (length fs)"
  by (simp add: levels_ok_def)

lemma levels_ok_snoc:
  "tiers p = fs @ [a] \<Longrightarrow>
   levels_ok p \<longleftrightarrow> map level fs = map int [0..<length fs] \<and> level a = int (length fs)"
  by (simp add: levels_ok_def)

lemma inv_init: "inv (init_project (Project_init i n c gs))"
  by (simp add: inv_def init_project_def Project_init_def new_tier_def one_active_def
        levels_ok_def refs_ok_def Tier_init_def)

lemma find_in_bucket_Some:
  "find_in_bucket p aid = Some r \<Longrightarrow> r \<in> set (bucket p) \<and> a_id (heap p ! r) = aid"
  unfolding find_in_bucket_def by (auto simp add: find_Some_iff)

lemma inv_branch:
  assumes "inv p"
  shows "inv (snd (branch_from_master now name ft p))"
proof -
  from assms obtain fs a where sh: "tiers p = fs @ [a]" "list_all frozen fs" "\<not> frozen a"
    by (auto simp add: inv_def one_active_shape)
  let ?q = "snd (branch_from_master now name ft p)"
  have lu: "last_unfrozen (tiers p) = Some (length fs)" using sh by (rule_tac one_active_last)
  have t: "tiers ?q = fs @ [a\<lparr>branches := branches a @ [fst (branch_from_master now name ft p)]\<rparr>]"
    using branch_tiers(1) [OF lu, of now name ft] sh by simp
  have "one_active ?q" unfolding one_active_shape using t sh by auto
  moreover have "levels_ok ?q" using assms sh t by (simp add: inv_def levels_ok_def)
  moreover have "refs_ok ?q" using assms by (simp add: inv_def refs_ok_def branch_effect)
  ultimately show ?thesis by (simp add: inv_def)
qed

lemma inv_collect:
  assumes "inv p"
  shows "inv (snd (collect_artifact now bid name cont p))"
proof -
  from assms obtain fs a where sh: "tiers p = fs @ [a]" "list_all frozen fs" "\<not> frozen a"
    by (auto simp add: inv_def one_active_shape)
  let ?q = "snd (collect_artifact now bid name cont p)"
  have lu: "last_unfrozen (tiers p) = Some (length fs)" using sh by (rule_tac one_active_last)
  have t: "tiers ?q = tiers p"
    by (simp add: collect_tiers current_tier_effect(4) [OF lu])
  obtain x where h: "heap ?q = heap p @ [x]"
    using collect_effect(1) [of now bid name cont p] by blast
  have "one_active ?q" using assms t by (simp add: inv_def one_active_def)
  moreover have "levels_ok ?q" using assms t by (simp add: inv_def levels_ok_def)
  moreover have "refs_ok ?q"
    using assms h by (auto simp add: inv_def refs_ok_def collect_effect list_all_iff)
  ultimately show ?thesis by (simp add: inv_def)
qed

lemma level_freeze: "level (freeze now aid p t) = level t" "frozen (freeze now aid p t)"
  by (simp_all add: freeze_def)

lemma inv_inject:
  assumes "inv p"
  shows "inv (snd (inject now aid p))"
proof (cases "find_in_bucket p aid")
  case None
  then show ?thesis using assms by (simp add: inject_unknown)
next
  case (Some r)
  from assms obtain fs a where sh: "tiers p = fs @ [a]" "list_all frozen fs" "\<not> frozen a"
    by (auto simp add: inv_def one_active_shape)
  let ?q = "snd (inject now aid p)"
  have lu: "last_unfrozen (tiers p) = Some (length fs)" using sh by (rule_tac one_active_last)
  have t: "tiers ?q = (fs @ [freeze now aid p a])
      @ [(Tier_init (int (Suc (length fs))))\<lparr>master_pin :=
            lit ''promoted from tier '' @ str_int (level a)\<rparr>]"
    using inject_active(2) [OF Some lu, of now] sh by (simp add: upd_end)
  obtain x where h: "heap ?q = (heap p)[r := (heap p ! r)\<lparr>status := lit ''injected''\<rparr>] @ [x]"
    using inject_heap(1) [OF Some, of now] by blast
  have "one_active ?q"
    unfolding one_active_shape using t sh by (auto simp add: level_freeze Tier_init_def)
  moreover have "levels_ok ?q"
    using assms sh unfolding levels_ok_def t inv_def
    by (simp add: level_freeze Tier_init_def)
  moreover have "refs_ok ?q"
    using assms h by (auto simp add: inv_def refs_ok_def inject_heap [OF Some] list_all_iff)
  ultimately show ?thesis by (simp add: inv_def)
qed

lemma inv_current:
  assumes "inv p"
  shows "snd (current_tier p) = p"
proof -
  from assms obtain fs a where sh: "tiers p = fs @ [a]" "list_all frozen fs" "\<not> frozen a"
    by (auto simp add: inv_def one_active_shape)
  have lu: "last_unfrozen (tiers p) = Some (length fs)" using sh by (rule_tac one_active_last)
  then show ?thesis by (simp add: current_tier_active)
qed

lemma inv_step: "inv p \<Longrightarrow> inv (apply_op x p)"
  by (cases x) (simp_all add: inv_branch inv_collect inv_inject inv_current)

lemma inv_run: "inv p \<Longrightarrow> inv (run xs p)"
  by (induction xs arbitrary: p) (simp_all add: inv_step)

lemma make_stamp_frozen: "make_stamp now i g (t\<lparr>frozen := b\<rparr>) = make_stamp now i g t"
  by (simp add: make_stamp_def Let_def)

lemma tiers_length_step: "length (tiers p) \<le> length (tiers (apply_op x p))"
proof (cases "last_unfrozen (tiers p)")
  case None
  show ?thesis
  proof (cases x)
    case (Inject now aid)
    then show ?thesis
      by (cases "find_in_bucket p aid") (simp_all add: inject_unknown inject_fresh None)
  qed (simp_all add: branch_tiers(2) collect_tiers current_tier_effect(5) None)
next
  case (Some k)
  show ?thesis
  proof (cases x)
    case (Inject now aid)
    then show ?thesis
      by (cases "find_in_bucket p aid") (simp_all add: inject_unknown inject_active(2) Some)
  qed (simp_all add: branch_tiers(1) collect_tiers current_tier_effect(4) Some)
qed

lemma tiers_length_run: "length (tiers p) \<le> length (tiers (run xs p))"
proof (induction xs arbitrary: p)
  case Nil
  show ?case by simp
next
  case (Cons x xs)
  have "length (tiers p) \<le> length (tiers (apply_op x p))" by (rule tiers_length_step)
  also have "\<dots> \<le> length (tiers (run xs (apply_op x p)))" by (rule Cons.IH)
  finally show ?case by simp
qed

lemma frozen_kept_step:
  assumes "i < length (tiers p)" "frozen (tiers p ! i)"
  shows "tiers (apply_op x p) ! i = tiers p ! i"
proof (cases "last_unfrozen (tiers p)")
  case None
  show ?thesis
  proof (cases x)
    case (Inject now aid)
    then show ?thesis using assms
      by (cases "find_in_bucket p aid")
         (simp_all add: inject_unknown inject_fresh None nth_append)
  qed (simp_all add: branch_tiers(2) collect_tiers current_tier_effect(5) None nth_append assms)
next
  case (Some k)
  then have k: "k \<noteq> i" using last_unfrozen_Some [OF Some] assms by auto
  show ?thesis
  proof (cases x)
    case (Inject now aid)
    then show ?thesis using assms k
      by (cases "find_in_bucket p aid")
         (simp_all add: inject_unknown inject_active(2) Some nth_append)
  qed (simp_all add: branch_tiers(1) collect_tiers current_tier_effect(4) Some k)
qed

lemma frozen_kept_run:
  assumes "i < length (tiers p)" "frozen (tiers p ! i)"
  shows "i < length (tiers (run xs p)) \<and> tiers (run xs p) ! i = tiers p ! i"
  using assms
proof (induction xs arbitrary: p)
  case Nil
  then show ?case by simp
next
  case (Cons x xs)
  have a: "i < length (tiers (apply_op x p))"
    using Cons.prems(1) tiers_length_step [of p x] by simp
  have b: "tiers (apply_op x p) ! i = tiers p ! i"
    using Cons.prems by (rule frozen_kept_step)
  then have "frozen (tiers (apply_op x p) ! i)" using Cons.prems by simp
  from Cons.IH [OF a this] b show ?case by simp
qed

lemma current_not_frozen:
  assumes "i < length (tiers p)" "frozen (tiers p ! i)"
  shows "fst (current_tier p) \<noteq> i"
proof (cases "last_unfrozen (tiers p)")
  case None
  then show ?thesis using assms by (simp add: current_tier_fresh)
next
  case (Some k)
  then show ?thesis using last_unfrozen_Some [OF Some] assms
    by (auto simp add: current_tier_active)
qed

text \<open>
  C8. Once the tier at position \<open>i\<close> is frozen, it stays at position \<open>i\<close> and is the
  same tier after any run of engine operations: the flag stays true, and neither a field
  nor the branches change. It is never again the current tier, which is the one that
  \<open>inject\<close> freezes. This holds from every state of the model, reachable or not.
\<close>

theorem frozen_is_permanent:
  assumes "i < length (tiers p)" "frozen (tiers p ! i)"
  shows "i < length (tiers (run xs p)) \<and> tiers (run xs p) ! i = tiers p ! i
     \<and> frozen (tiers (run xs p) ! i) \<and> fst (current_tier (run xs p)) \<noteq> i"
proof -
  have a: "i < length (tiers (run xs p)) \<and> tiers (run xs p) ! i = tiers p ! i"
    using assms by (rule frozen_kept_run)
  then have b: "frozen (tiers (run xs p) ! i)" using assms by simp
  from a b have "fst (current_tier (run xs p)) \<noteq> i"
    by (intro current_not_frozen) simp_all
  with a b show ?thesis by simp
qed

lemma levels_Max:
  assumes "levels_ok p" "tiers p \<noteq> []"
  shows "Max (set (map level (tiers p))) = int (length (tiers p)) - 1"
proof -
  let ?n = "length (tiers p)"
  have s: "set (map level (tiers p)) = int ` {0..<?n}"
    using assms(1) by (simp add: levels_ok_def)
  have n: "0 < ?n" using assms(2) by simp
  show ?thesis unfolding s
  proof (rule Max_eqI)
    show "finite (int ` {0..<?n})" by simp
    show "\<And>y. y \<in> int ` {0..<?n} \<Longrightarrow> y \<le> int ?n - 1" by auto
    show "int ?n - 1 \<in> int ` {0..<?n}"
    proof
      show "int ?n - 1 = int (?n - 1)" using n by (cases "length (tiers p)") simp_all
      show "?n - 1 \<in> {0..<?n}" using n by simp
    qed
  qed
qed

text \<open>
  C2. Let \<open>p\<close> be a project state of the data model (levels equal positions, references
  point into the store) with an active tier at position \<open>k\<close>, the last unfrozen one, and
  let \<open>aid\<close> be the id of an artifact of the bucket, found at address \<open>r\<close>. After
  \<open>inject\<close>: tier \<open>k\<close> is frozen, with the stamp of the freeze stored and
  \<open>promoted_by\<close> set to \<open>aid\<close>, and no other tier has changed; exactly one tier is
  new, at level = old highest level + 1, unfrozen, and it is the current tier; exactly one
  artifact is new, of origin TIER\_AUTO and without source branch, appended to the artifact
  list and absent from the bucket, which is unchanged; and the injected artifact's status
  is \<open>injected\<close>, no other artifact of the store having changed.
\<close>

theorem inject_postcondition:
  assumes "find_in_bucket p aid = Some r" "last_unfrozen (tiers p) = Some k"
    "levels_ok p" "refs_ok p"
  shows "let q = snd (inject now aid p); n = length (tiers p); a = length (heap p) in
       fst (inject now aid p) = Some (n, a)
     \<and> tiers q ! k = (tiers p ! k)\<lparr>frozen := True,
          frozen_stamp := make_stamp now (p_id p) (p_gates p) (tiers p ! k),
          promoted_by := aid\<rparr>
     \<and> (\<forall>j < n. j \<noteq> k \<longrightarrow> tiers q ! j = tiers p ! j)
     \<and> length (tiers q) = n + 1
     \<and> tiers q ! n = (Tier_init (int n))\<lparr>master_pin :=
          lit ''promoted from tier '' @ str_int (level (tiers p ! k))\<rparr>
     \<and> level (tiers q ! n) = Max (set (map level (tiers p))) + 1
     \<and> current_tier q = (n, q)
     \<and> artifacts q = artifacts p @ [a] \<and> length (heap q) = a + 1
     \<and> origin (heap q ! a) = TIER_AUTO \<and> source_branch (heap q ! a) = None
     \<and> bucket q = bucket p \<and> a \<notin> set (bucket q)
     \<and> status (heap q ! r) = lit ''injected''
     \<and> (\<forall>x < a. x \<noteq> r \<longrightarrow> heap q ! x = heap p ! x)"
proof -
  let ?q = "snd (inject now aid p)"
  let ?n = "length (tiers p)"
  let ?a = "length (heap p)"
  let ?new = "(Tier_init (int ?n))\<lparr>master_pin :=
          lit ''promoted from tier '' @ str_int (level (tiers p ! k))\<rparr>"
  note act = inject_active [OF assms(1,2), of now]
  have k: "k < ?n" "\<not> frozen (tiers p ! k)"
    using last_unfrozen_Some [OF assms(2)] by simp_all
  have r: "r \<in> set (bucket p)" using find_in_bucket_Some [OF assms(1)] by simp
  then have rl: "r < ?a" using assms(4) by (simp add: refs_ok_def list_all_iff)
  obtain x where h: "heap ?q = (heap p)[r := (heap p ! r)\<lparr>status := lit ''injected''\<rparr>] @ [x]"
      and x: "origin x = TIER_AUTO" "source_branch x = None"
    using inject_heap(1) [OF assms(1), of now] by blast
  have t: "tiers ?q = (tiers p)[k := freeze now aid p (tiers p ! k)] @ [?new]"
    by (rule act(2))
  have c1: "fst (inject now aid p) = Some (?n, ?a)" by (rule act(1))
  have c2: "tiers ?q ! k = (tiers p ! k)\<lparr>frozen := True,
          frozen_stamp := make_stamp now (p_id p) (p_gates p) (tiers p ! k),
          promoted_by := aid\<rparr>"
    using k by (simp add: t nth_append freeze_def make_stamp_frozen)
  have c3: "\<forall>j < ?n. j \<noteq> k \<longrightarrow> tiers ?q ! j = tiers p ! j"
    by (simp add: t nth_append)
  have c4: "length (tiers ?q) = ?n + 1" by (simp add: t)
  have c5: "tiers ?q ! ?n = ?new" by (simp add: t nth_end)
  have ne: "tiers p \<noteq> []" using k by auto
  have c6: "level (tiers ?q ! ?n) = Max (set (map level (tiers p))) + 1"
    unfolding c5 levels_Max [OF assms(3) ne] by (simp add: Tier_init_def)
  have "last_unfrozen (tiers ?q) = Some ?n"
    unfolding t by (simp add: last_unfrozen_snoc Tier_init_def)
  then have c7: "current_tier ?q = (?n, ?q)" by (rule current_tier_active)
  have c8: "artifacts ?q = artifacts p @ [?a] \<and> length (heap ?q) = ?a + 1"
    using act(4,5) by simp
  have c9: "origin (heap ?q ! ?a) = TIER_AUTO \<and> source_branch (heap ?q ! ?a) = None"
    using x by (simp add: h nth_end)
  have c10: "bucket ?q = bucket p" by (rule act(3))
  have c11: "?a \<notin> set (bucket ?q)"
    using assms(4) unfolding c10 by (auto simp add: refs_ok_def list_all_iff)
  have c12: "status (heap ?q ! r) = lit ''injected''"
    using rl by (simp add: h nth_append)
  have c13: "\<forall>x < ?a. x \<noteq> r \<longrightarrow> heap ?q ! x = heap p ! x"
    by (simp add: h nth_append)
  show ?thesis
    unfolding Let_def
    using c1 c2 c3 c4 c5 c6 c7 c8 c9 c10 c11 c12 c13 by (intro conjI) simp_all
qed

lemma inv_last:
  assumes "inv p"
  shows "last_unfrozen (tiers p) = Some (length (tiers p) - 1)"
    and "tiers p \<noteq> []" and "level (last (tiers p)) = int (length (tiers p)) - 1"
proof -
  from assms obtain fs a where sh: "tiers p = fs @ [a]" "list_all frozen fs" "\<not> frozen a"
    by (auto simp add: inv_def one_active_shape)
  show "last_unfrozen (tiers p) = Some (length (tiers p) - 1)"
    using one_active_last [OF sh(1,3)] sh(1) by simp
  show "tiers p \<noteq> []" using sh by simp
  from assms have "levels_ok p" by (simp add: inv_def)
  then show "level (last (tiers p)) = int (length (tiers p)) - 1"
    using sh(1) by (simp add: levels_ok_def)
qed

lemma levels_prefix:
  assumes "levels_ok p" "levels_ok q" "length (tiers p) \<le> length (tiers q)"
  shows "map level (take (length (tiers p)) (tiers q)) = map level (tiers p)"
proof -
  have "map level (take (length (tiers p)) (tiers q))
      = take (length (tiers p)) (map level (tiers q))" by (simp add: take_map)
  also have "\<dots> = take (length (tiers p)) (map int [0..<length (tiers q)])"
    using assms(2) by (simp add: levels_ok_def)
  also have "\<dots> = map int [0..<length (tiers p)]"
    using assms(3) by (simp add: take_map min_def)
  finally show ?thesis using assms(1) by (simp add: levels_ok_def)
qed

text \<open>
  C3. In every state \<open>p\<close> reached from \<open>init_project\<close> by a run of engine operations:
  at most one tier is unfrozen, and it is the last one; every tier's level is its position
  in the tier list (\<open>levels_ok\<close>); every reference points into the store; in every
  later state \<open>q\<close> the tier list is at least as long, begins with the same levels and
  holds every frozen tier of \<open>p\<close> unchanged at its position, so that tiers are only ever
  appended; and an \<open>inject\<close> that finds its artifact adds one
  tier, whose level is the level of the last tier plus 1, while one that does not find it
  leaves the tier list as it is.
\<close>

theorem tier_invariants:
  "let p = run xs (init_project (Project_init i n c gs)); q = run ys p in
     length (filter (\<lambda>t. \<not> frozen t) (tiers p)) \<le> 1
   \<and> last_unfrozen (tiers p) = Some (length (tiers p) - 1)
   \<and> levels_ok p \<and> refs_ok p
   \<and> length (tiers p) \<le> length (tiers q)
   \<and> map level (take (length (tiers p)) (tiers q)) = map level (tiers p)
   \<and> (\<forall>j < length (tiers p). frozen (tiers p ! j) \<longrightarrow> tiers q ! j = tiers p ! j)
   \<and> (find_in_bucket p aid \<noteq> None \<longrightarrow>
        length (tiers (snd (inject now aid p))) = length (tiers p) + 1
      \<and> level (last (tiers (snd (inject now aid p)))) = level (last (tiers p)) + 1)
   \<and> (find_in_bucket p aid = None \<longrightarrow> tiers (snd (inject now aid p)) = tiers p)"
proof -
  let ?p = "run xs (init_project (Project_init i n c gs))"
  let ?q = "run ys ?p"
  have ip: "inv ?p" by (rule inv_run) (rule inv_init)
  then have iq: "inv ?q" by (rule inv_run)
  have c1: "length (filter (\<lambda>t. \<not> frozen t) (tiers ?p)) \<le> 1"
    using ip by (simp add: inv_def one_active_count)
  have c2: "last_unfrozen (tiers ?p) = Some (length (tiers ?p) - 1)"
    using ip by (rule inv_last)
  have c3: "levels_ok ?p" using ip by (simp add: inv_def)
  have c3': "refs_ok ?p" using ip by (simp add: inv_def)
  have c4: "length (tiers ?p) \<le> length (tiers ?q)" by (rule tiers_length_run)
  have c5: "map level (take (length (tiers ?p)) (tiers ?q)) = map level (tiers ?p)"
    using c3 iq c4 by (intro levels_prefix) (simp_all add: inv_def)
  have c5': "\<forall>j < length (tiers ?p). frozen (tiers ?p ! j) \<longrightarrow> tiers ?q ! j = tiers ?p ! j"
    using frozen_kept_run [of _ ?p ys] by blast
  have c6: "find_in_bucket ?p aid \<noteq> None \<longrightarrow>
        length (tiers (snd (inject now aid ?p))) = length (tiers ?p) + 1
      \<and> level (last (tiers (snd (inject now aid ?p)))) = level (last (tiers ?p)) + 1"
  proof
    assume "find_in_bucket ?p aid \<noteq> None"
    then obtain r where r: "find_in_bucket ?p aid = Some r" by auto
    have "inv (snd (inject now aid ?p))" using ip by (rule inv_inject)
    from inv_last(3) [OF this] inv_last(3) [OF ip] inject_active(2) [OF r c2, of now]
    show "length (tiers (snd (inject now aid ?p))) = length (tiers ?p) + 1
      \<and> level (last (tiers (snd (inject now aid ?p)))) = level (last (tiers ?p)) + 1"
      by simp
  qed
  have c7: "find_in_bucket ?p aid = None \<longrightarrow> tiers (snd (inject now aid ?p)) = tiers ?p"
    by (simp add: inject_unknown)
  show ?thesis unfolding Let_def using c1 c2 c3 c3' c4 c5 c5' c6 c7 by (intro conjI)
qed

text \<open>
  C6. When no artifact of the bucket has the id \<open>aid\<close>, \<open>inject\<close> returns no result
  and the project state it returns is the state it was given: tiers, branches, artifact
  list, bucket, store and gates are unchanged. The same holds for \<open>inject_to_master\<close> of
  the flat model.
\<close>

theorem inject_unknown_noop:
  "((\<forall>r \<in> set (bucket p). a_id (heap p ! r) \<noteq> aid) \<longrightarrow> inject now aid p = (None, p))
   \<and> ((\<forall>r \<in> set (mp_bucket m). ma_id (mp_heap m ! r) \<noteq> aid)
        \<longrightarrow> inject_to_master aid m = (None, m))"
proof (intro conjI impI)
  assume "\<forall>r \<in> set (bucket p). a_id (heap p ! r) \<noteq> aid"
  then have "find_in_bucket p aid = None"
    by (simp add: find_in_bucket_def find_None_iff)
  then show "inject now aid p = (None, p)" by (rule inject_unknown)
next
  assume "\<forall>r \<in> set (mp_bucket m). ma_id (mp_heap m ! r) \<noteq> aid"
  then show "inject_to_master aid m = (None, m)" by (rule inject_to_master_unknown)
qed

text \<open>
  C7, as the code has it. \<open>collect_artifact\<close> of gently\_tiers.py looks no branch up.
  For every branch id, known to the project or not, it returns a new artifact of origin
  MANUAL that records the given branch id, name and content, and it appends that artifact
  to the artifact list and to the bucket. It is \<open>collect_from_branch\<close> of the flat model
  that returns no result for a branch id of no branch, and then changes nothing.
\<close>

theorem collect_artifact_always:
  "fst (collect_artifact now bid name cont p) = length (heap p)
   \<and> length (heap (snd (collect_artifact now bid name cont p))) = length (heap p) + 1
   \<and> take (length (heap p)) (heap (snd (collect_artifact now bid name cont p))) = heap p
   \<and> artifacts (snd (collect_artifact now bid name cont p)) = artifacts p @ [length (heap p)]
   \<and> bucket (snd (collect_artifact now bid name cont p)) = bucket p @ [length (heap p)]
   \<and> origin (heap (snd (collect_artifact now bid name cont p)) ! length (heap p)) = MANUAL
   \<and> source_branch (heap (snd (collect_artifact now bid name cont p)) ! length (heap p)) = Some bid
   \<and> a_name (heap (snd (collect_artifact now bid name cont p)) ! length (heap p)) = name
   \<and> content (heap (snd (collect_artifact now bid name cont p)) ! length (heap p)) = cont
   \<and> ((\<forall>b \<in> set (mp_branches m). mb_id b \<noteq> bid)
        \<longrightarrow> collect_from_branch now bid name cont m = (None, m))"
proof -
  obtain a where h: "heap (snd (collect_artifact now bid name cont p)) = heap p @ [a]"
    and a: "origin a = MANUAL" "source_branch a = Some bid" "a_name a = name" "content a = cont"
    using collect_effect(1) [of now bid name cont p] by blast
  have flat: "(\<forall>b \<in> set (mp_branches m). mb_id b \<noteq> bid)
        \<longrightarrow> collect_from_branch now bid name cont m = (None, m)"
    by (simp add: collect_from_branch_unknown)
  show ?thesis
    unfolding h using a flat by (simp add: collect_effect)
qed

lemma bucket_step:
  "bucket (apply_op x p)
     = bucket p @ (case x of CollectArtifact now bid name cont \<Rightarrow> [length (heap p)] | _ \<Rightarrow> [])"
proof (cases x)
  case (Inject now aid)
  then show ?thesis
    by (cases "find_in_bucket p aid") (simp_all add: inject_unknown inject_heap(2))
qed (simp_all add: branch_effect collect_effect current_tier_effect)

lemma bucket_run: "take (length (bucket p)) (bucket (run xs p)) = bucket p"
proof (induction xs arbitrary: p)
  case Nil
  show ?case by simp
next
  case (Cons x xs)
  obtain m where m: "bucket (apply_op x p) = bucket p @ m"
    using bucket_step [of x p] by simp
  have "take (length (bucket p @ m)) (bucket (run xs (apply_op x p))) = bucket p @ m"
    using Cons.IH [of "apply_op x p"] m by simp
  then have "take (length (bucket p)) (take (length (bucket p @ m)) (bucket (run xs (apply_op x p))))
      = take (length (bucket p)) (bucket p @ m)" by simp
  then show ?case by (simp add: min_def)
qed

lemma a_id_status:
  "y < length hs \<Longrightarrow> a_id (hs[r := (hs ! r)\<lparr>status := s\<rparr>] ! y) = a_id (hs ! y)"
  by (cases "y = r") simp_all

lemma heap_step:
  "length (heap p) \<le> length (heap (apply_op x p))
   \<and> (\<forall>y < length (heap p). a_id (heap (apply_op x p) ! y) = a_id (heap p ! y))"
proof (cases x)
  case (Inject now aid)
  show ?thesis
  proof (cases "find_in_bucket p aid")
    case None
    with Inject show ?thesis by (simp add: inject_unknown)
  next
    case (Some r)
    obtain a where "heap (snd (inject now aid p))
            = (heap p)[r := (heap p ! r)\<lparr>status := lit ''injected''\<rparr>] @ [a]"
      using inject_heap(1) [OF Some, of now] by blast
    with Inject show ?thesis by (simp add: nth_append a_id_status)
  qed
next
  case (CollectArtifact now bid name cont)
  obtain a where "heap (snd (collect_artifact now bid name cont p)) = heap p @ [a]"
    using collect_effect(1) [of now bid name cont p] by blast
  with CollectArtifact show ?thesis by (simp add: nth_append)
qed (simp_all add: branch_effect current_tier_effect)

lemma refs_ok_step:
  assumes "refs_ok p"
  shows "refs_ok (apply_op x p)"
proof -
  have b: "set (bucket (apply_op x p)) \<subseteq> set (bucket p) \<union> {length (heap p)}"
    unfolding bucket_step by (cases x) auto
  have a: "set (artifacts (apply_op x p)) \<subseteq> set (artifacts p) \<union> {length (heap p)}"
  proof (cases x)
    case (Inject now aid)
    then show ?thesis
      by (cases "find_in_bucket p aid") (auto simp add: inject_unknown inject_heap(3))
  qed (auto simp add: branch_effect collect_effect current_tier_effect)
  have l: "length (heap p) \<le> length (heap (apply_op x p))"
    using heap_step [of p x] by simp
  have grow: "length (heap p) \<in> set (bucket (apply_op x p)) \<union> set (artifacts (apply_op x p))
      \<Longrightarrow> length (heap p) < length (heap (apply_op x p))"
  proof (cases x)
    case (Inject now aid)
    assume m: "length (heap p) \<in> set (bucket (apply_op x p)) \<union> set (artifacts (apply_op x p))"
    show ?thesis
    proof (cases "find_in_bucket p aid")
      case None
      with Inject m assms show ?thesis
        by (auto simp add: inject_unknown refs_ok_def list_all_iff)
    next
      case (Some r)
      obtain a where "heap (snd (inject now aid p))
            = (heap p)[r := (heap p ! r)\<lparr>status := lit ''injected''\<rparr>] @ [a]"
        using inject_heap(1) [OF Some, of now] by blast
      with Inject show ?thesis by simp
    qed
  next
    case (CollectArtifact now bid name cont)
    obtain a where "heap (snd (collect_artifact now bid name cont p)) = heap p @ [a]"
      using collect_effect(1) [of now bid name cont p] by blast
    with CollectArtifact show ?thesis by simp
  next
    case (BranchFromMaster now name ft)
    assume "length (heap p) \<in> set (bucket (apply_op x p)) \<union> set (artifacts (apply_op x p))"
    with BranchFromMaster assms show ?thesis
      by (auto simp add: branch_effect refs_ok_def list_all_iff)
  next
    case CurrentTier
    assume "length (heap p) \<in> set (bucket (apply_op x p)) \<union> set (artifacts (apply_op x p))"
    with CurrentTier assms show ?thesis
      by (auto simp add: current_tier_effect refs_ok_def list_all_iff)
  qed
  show ?thesis
    unfolding refs_ok_def list_all_iff
  proof (intro conjI ballI)
    fix r assume "r \<in> set (artifacts (apply_op x p))"
    with a assms l grow show "r < length (heap (apply_op x p))"
      by (fastforce simp add: refs_ok_def list_all_iff)
  next
    fix r assume "r \<in> set (bucket (apply_op x p))"
    with b assms l grow show "r < length (heap (apply_op x p))"
      by (fastforce simp add: refs_ok_def list_all_iff)
  qed
qed

lemma find_append_Some: "find P xs = Some r \<Longrightarrow> find P (xs @ ys) = Some r"
  by (induction xs) (auto split: if_splits)

lemma find_agree: "\<forall>x \<in> set xs. P x = Q x \<Longrightarrow> find P xs = find Q xs"
  by (induction xs) auto

lemma find_kept_step:
  assumes "refs_ok p" "find_in_bucket p aid = Some r"
  shows "find_in_bucket (apply_op x p) aid = Some r"
proof -
  obtain m where m: "bucket (apply_op x p) = bucket p @ m"
    using bucket_step [of x p] by simp
  have "\<forall>y \<in> set (bucket p).
      (a_id (heap (apply_op x p) ! y) = aid) = (a_id (heap p ! y) = aid)"
    using assms(1) heap_step [of p x] by (auto simp add: refs_ok_def list_all_iff)
  then have "find (\<lambda>y. a_id (heap (apply_op x p) ! y) = aid) (bucket p) = Some r"
    using assms(2) find_agree [of "bucket p" "\<lambda>y. a_id (heap (apply_op x p) ! y) = aid"
        "\<lambda>y. a_id (heap p ! y) = aid"]
    by (simp add: find_in_bucket_def)
  then show ?thesis
    unfolding find_in_bucket_def m by (rule find_append_Some)
qed

lemma find_kept_run:
  assumes "refs_ok p" "find_in_bucket p aid = Some r"
  shows "find_in_bucket (run xs p) aid = Some r"
  using assms
proof (induction xs arbitrary: p)
  case Nil
  then show ?case by simp
next
  case (Cons x xs)
  from Cons.prems have "refs_ok (apply_op x p)" "find_in_bucket (apply_op x p) aid = Some r"
    by (simp_all add: refs_ok_step find_kept_step)
  then show ?case using Cons.IH by simp
qed

text \<open>
  C10. An engine operation leaves the bucket as it is, except \<open>collect_artifact\<close>, which
  appends the address of its new artifact; so after any run of operations the bucket
  begins with the bucket before. In particular \<open>inject\<close> keeps the injected artifact in
  the bucket and changes only its status, and \<open>find_in_bucket\<close> with the same id finds
  the same artifact after the inject and after any later run of operations.
\<close>

theorem bucket_append_only:
  "bucket (apply_op x p)
     = bucket p @ (case x of CollectArtifact now' bid name cont \<Rightarrow> [length (heap p)] | _ \<Rightarrow> [])
   \<and> take (length (bucket p)) (bucket (run xs p)) = bucket p
   \<and> (refs_ok p \<and> find_in_bucket p aid = Some r \<longrightarrow>
        bucket (snd (inject now aid p)) = bucket p
      \<and> r \<in> set (bucket (snd (inject now aid p)))
      \<and> heap (snd (inject now aid p)) ! r = (heap p ! r)\<lparr>status := lit ''injected''\<rparr>
      \<and> find_in_bucket (run xs (snd (inject now aid p))) aid = Some r)"
proof -
  have c3: "refs_ok p \<and> find_in_bucket p aid = Some r \<longrightarrow>
        bucket (snd (inject now aid p)) = bucket p
      \<and> r \<in> set (bucket (snd (inject now aid p)))
      \<and> heap (snd (inject now aid p)) ! r = (heap p ! r)\<lparr>status := lit ''injected''\<rparr>
      \<and> find_in_bucket (run xs (snd (inject now aid p))) aid = Some r"
  proof
    assume h: "refs_ok p \<and> find_in_bucket p aid = Some r"
    then have f: "find_in_bucket p aid = Some r" and ok: "refs_ok p" by simp_all
    have rb: "r \<in> set (bucket p)" using find_in_bucket_Some [OF f] by simp
    then have rl: "r < length (heap p)" using ok by (simp add: refs_ok_def list_all_iff)
    obtain a where hq: "heap (snd (inject now aid p))
            = (heap p)[r := (heap p ! r)\<lparr>status := lit ''injected''\<rparr>] @ [a]"
      using inject_heap(1) [OF f, of now] by blast
    have b: "bucket (snd (inject now aid p)) = bucket p" by (rule inject_heap(2) [OF f])
    have "refs_ok (apply_op (Inject now aid) p)" using ok by (rule refs_ok_step)
    moreover have "find_in_bucket (apply_op (Inject now aid) p) aid = Some r"
      using ok f by (rule find_kept_step)
    ultimately have "find_in_bucket (run xs (apply_op (Inject now aid) p)) aid = Some r"
      by (rule find_kept_run)
    then show "bucket (snd (inject now aid p)) = bucket p
      \<and> r \<in> set (bucket (snd (inject now aid p)))
      \<and> heap (snd (inject now aid p)) ! r = (heap p ! r)\<lparr>status := lit ''injected''\<rparr>
      \<and> find_in_bucket (run xs (snd (inject now aid p))) aid = Some r"
      using b rb rl by (simp add: hq nth_append)
  qed
  show ?thesis using bucket_step [of x p] bucket_run [of p xs] c3 by (intro conjI)
qed

lemmas demo_eval = demo1_def demo0_def demo_gates_def init_project_def Project_init_def
  new_tier_def current_tier_def branch_from_master_def collect_artifact_def
  Tier_init_def Let_def str_nat.simps lit_def

lemma demo1_facts:
  "length (tiers demo1) = 1" "length (heap demo1) = 1" "bucket demo1 = [0]"
  "artifacts demo1 = [0]" "a_id (heap demo1 ! 0) = lit ''art-0''"
  "last_unfrozen (tiers demo1) = Some 0" "map level (tiers demo1) = [0]"
  by (simp_all add: demo_eval)

lemma demo1_ok: "levels_ok demo1" "refs_ok demo1"
  by (simp_all add: levels_ok_def refs_ok_def demo1_facts)

lemma demo1_find:
  "find_in_bucket demo1 (lit ''art-0'') = Some 0" "find_in_bucket demo1 (lit ''zz'') = None"
  by (simp_all add: find_in_bucket_def demo1_facts) (simp_all add: lit_def)

theorem inject_postcondition_witness:
  "find_in_bucket demo1 (lit ''art-0'') = Some 0 \<and> last_unfrozen (tiers demo1) = Some 0
   \<and> levels_ok demo1 \<and> refs_ok demo1
   \<and> fst (inject now_sample (lit ''art-0'') demo1) = Some (1, 1)
   \<and> length (tiers demo2) = 2 \<and> frozen (tiers demo2 ! 0)
   \<and> promoted_by (tiers demo2 ! 0) = lit ''art-0''
   \<and> current_tier demo2 = (1, demo2)
   \<and> artifacts demo2 = [0, 1] \<and> bucket demo2 = [0]
   \<and> origin (heap demo2 ! 1) = TIER_AUTO \<and> source_branch (heap demo2 ! 1) = None
   \<and> status (heap demo2 ! 0) = lit ''injected''"
  using inject_postcondition [OF demo1_find(1) demo1_facts(6) demo1_ok, of now_sample]
  by (simp add: Let_def demo1_facts demo1_ok demo1_find demo2_def)

theorem tier_invariants_witness:
  "find_in_bucket demo1 (lit ''art-0'') \<noteq> None \<and> find_in_bucket demo1 (lit ''zz'') = None
   \<and> length (filter (\<lambda>t. \<not> frozen t) (tiers demo1)) \<le> 1
   \<and> levels_ok demo1
   \<and> length (tiers demo2) = 2
   \<and> level (last (tiers demo2)) = level (last (tiers demo1)) + 1
   \<and> tiers (snd (inject now_sample (lit ''zz'') demo1)) = tiers demo1"
proof -
  note a = tier_invariants [of "[BranchFromMaster now_sample (lit ''jpeg-test'') EXPLORE,
                CollectArtifact now_sample (lit ''b0-jpeg-test'') (lit ''jpeg-findings'')
                  (lit ''JPEG kills blue'')]" "lit ''olo''" "lit ''OLO Guard''" "lit ''#00e5a0''"
      demo_gates "[]" "lit ''art-0''" now_sample, folded demo0_def, folded demo1_def]
  note b = tier_invariants [of "[BranchFromMaster now_sample (lit ''jpeg-test'') EXPLORE,
                CollectArtifact now_sample (lit ''b0-jpeg-test'') (lit ''jpeg-findings'')
                  (lit ''JPEG kills blue'')]" "lit ''olo''" "lit ''OLO Guard''" "lit ''#00e5a0''"
      demo_gates "[]" "lit ''zz''" now_sample, folded demo0_def, folded demo1_def]
  from a b show ?thesis
    by (simp add: Let_def demo1_find demo1_facts demo2_def)
qed

theorem inject_unknown_noop_witness:
  "bucket demo1 = [0] \<and> a_id (heap demo1 ! 0) = lit ''art-0''
   \<and> mp_bucket mdemo1 = [0] \<and> ma_id (mp_heap mdemo1 ! 0) = lit ''art-0''
   \<and> lit ''art-0'' \<noteq> lit ''zz''
   \<and> inject now_sample (lit ''zz'') demo1 = (None, demo1)
   \<and> inject_to_master (lit ''zz'') mdemo1 = (None, mdemo1)"
proof -
  have d: "lit ''art-0'' \<noteq> lit ''zz''" by (simp add: lit_def)
  then have h: "\<forall>r \<in> set (bucket demo1). a_id (heap demo1 ! r) \<noteq> lit ''zz''"
    by (simp add: demo1_facts)
  from d have hm: "\<forall>r \<in> set (mp_bucket mdemo1). ma_id (mp_heap mdemo1 ! r) \<noteq> lit ''zz''"
    by (simp add: mdemo1_facts)
  from inject_unknown_noop [of demo1 "lit ''zz''" now_sample mdemo1] h hm d show ?thesis
    by (simp add: demo1_facts mdemo1_facts)
qed

theorem collect_artifact_always_witness:
  "fst (collect_artifact now_sample (lit ''nope'') (lit ''more'') (lit ''text'') demo1) = 1
   \<and> bucket (snd (collect_artifact now_sample (lit ''nope'') (lit ''more'') (lit ''text'') demo1))
       = [0, 1]
   \<and> map mb_id (mp_branches mdemo1) = [lit ''olo-jpeg''] \<and> lit ''olo-jpeg'' \<noteq> lit ''nope''
   \<and> collect_from_branch now_sample (lit ''nope'') (lit ''more'') (lit ''text'') mdemo1
       = (None, mdemo1)"
proof -
  have d: "lit ''olo-jpeg'' \<noteq> lit ''nope''" by (simp add: lit_def)
  have "\<forall>i \<in> set (map mb_id (mp_branches mdemo1)). i \<noteq> lit ''nope''"
    unfolding mdemo1_facts using d by simp
  then have hm: "\<forall>b \<in> set (mp_branches mdemo1). mb_id b \<noteq> lit ''nope''"
    by simp
  from collect_artifact_always [of now_sample "lit ''nope''" "lit ''more''" "lit ''text''" demo1 mdemo1]
    hm d show ?thesis
    by (simp add: demo1_facts mdemo1_facts)
qed

text \<open>
  The claim as stated fails: in \<open>demo1\<close> no branch has the id \<open>nope\<close>, and
  \<open>collect_artifact\<close> with that id returns an artifact and appends it to the artifact
  list and to the bucket.
\<close>

theorem collect_unknown_branch_counterexample:
  "lit ''nope'' \<notin> set (map b_id (concat (map branches (tiers demo1))))
   \<and> fst (collect_artifact now_sample (lit ''nope'') (lit ''more'') (lit ''text'') demo1) = 1
   \<and> artifacts (snd (collect_artifact now_sample (lit ''nope'') (lit ''more'') (lit ''text'') demo1))
       = [0, 1]
   \<and> bucket (snd (collect_artifact now_sample (lit ''nope'') (lit ''more'') (lit ''text'') demo1))
       = [0, 1]"
proof -
  have "map b_id (concat (map branches (tiers demo1))) = [lit ''b0-jpeg-test'']"
    by (simp add: demo_eval)
  then have "lit ''nope'' \<notin> set (map b_id (concat (map branches (tiers demo1))))"
    by (simp add: lit_def)
  then show ?thesis by (simp add: collect_effect demo1_facts)
qed

lemma demo2_facts: "0 < length (tiers demo2)" "frozen (tiers demo2 ! 0)"
  using inject_active(2) [OF demo1_find(1) demo1_facts(6), of now_sample] demo1_facts(1)
  by (simp_all add: demo2_def nth_append freeze_def)

theorem frozen_is_permanent_witness:
  "0 < length (tiers demo2) \<and> frozen (tiers demo2 ! 0)
   \<and> tiers (run [CollectArtifact now_sample (lit ''b0-jpeg-test'') (lit ''more'') (lit ''text''),
                  Inject now_sample (lit ''art-0''), Inject now_sample (lit ''art-2'')] demo2) ! 0
       = tiers demo2 ! 0
   \<and> fst (current_tier (run [CollectArtifact now_sample (lit ''b0-jpeg-test'') (lit ''more'') (lit ''text''),
                  Inject now_sample (lit ''art-0''), Inject now_sample (lit ''art-2'')] demo2)) \<noteq> 0"
  using frozen_is_permanent [OF demo2_facts,
      of "[CollectArtifact now_sample (lit ''b0-jpeg-test'') (lit ''more'') (lit ''text''),
           Inject now_sample (lit ''art-0''), Inject now_sample (lit ''art-2'')]"] demo2_facts
  by simp

theorem bucket_append_only_witness:
  "refs_ok demo1 \<and> find_in_bucket demo1 (lit ''art-0'') = Some 0
   \<and> bucket demo2 = bucket demo1
   \<and> heap demo2 ! 0 = (heap demo1 ! 0)\<lparr>status := lit ''injected''\<rparr>
   \<and> find_in_bucket (run [Inject now_sample (lit ''art-0'')] demo2) (lit ''art-0'') = Some 0"
  using bucket_append_only [of CurrentTier demo1 "[Inject now_sample (lit ''art-0'')]"
      "lit ''art-0''" 0 now_sample] demo1_ok(2) demo1_find(1)
  by (simp add: demo2_def)

end
